theory Spec2Isabelle
  imports
    Main
    "HOL-Library.Signed_Division"
    "HOL-Library.AList"
    "HOL-Library.Char_ord"
    "HOL-Library.List_Lexorder"
    "HOL-Library.Multiset"
begin

section \<open>Replica allocation of a UnitedDeployment (allocator.go)\<close>

text \<open>
  The development embeds \<^verbatim>\<open>pkg/controller/uniteddeployment/allocator.go\<close>.
  Conventions of the embedding:
  \<^item> a Go \<^verbatim>\<open>int32\<close> is an \<open>int\<close> on which every arithmetic result is wrapped by \<open>i32\<close>;
  \<^item> a Go \<^verbatim>\<open>int\<close> (slice lengths, loop indices, counters) is an \<open>int\<close> that is not
    wrapped: it is 64 bits wide and bounded here by a slice length or by an \<^verbatim>\<open>int32\<close> value;
  \<^item> a Go \<^verbatim>\<open>map[string]int32\<close> is an association list with distinct keys; lookup is
    \<open>map_of\<close>, assignment is \<open>AList.update\<close>, and \<^verbatim>\<open>range\<close> visits the entries in the
    order of the list, which stands for the unspecified iteration order of the Go map;
  \<^item> a pointer to such a map is an \<open>option\<close>, \<open>None\<close> being \<^verbatim>\<open>nil\<close>;
  \<^item> the slice of record pointers \<^verbatim>\<open>subsetInfos\<close> is a list of records; the pointers of one
    slice are pairwise different, so writing through the pointer at index \<open>i\<close> is a list
    update at \<open>i\<close>, and a method that mutates the records returns the new list;
  \<^item> a run-time panic (index out of range, nil dereference, integer division by zero) is
    the result \<open>None\<close>.
\<close>

subsection \<open>Machine integers\<close>

definition i32 :: "int \<Rightarrow> int" where
  "i32 x = (x + 2 ^ 31) mod 2 ^ 32 - 2 ^ 31"

text \<open>Go's \<^verbatim>\<open>/\<close> and \<^verbatim>\<open>%\<close> truncate towards zero (\<open>sdiv\<close> and \<open>smod\<close>) and panic on a zero
  divisor.\<close>

definition div32 :: "int \<Rightarrow> int \<Rightarrow> int option" where
  "div32 a b = (if b = 0 then None else Some (i32 (a sdiv b)))"

definition mod32 :: "int \<Rightarrow> int \<Rightarrow> int option" where
  "mod32 a b = (if b = 0 then None else Some (a smod b))"

subsection \<open>Formatting with \<^verbatim>\<open>%d\<close>\<close>

definition digit :: "nat \<Rightarrow> char" where
  "digit n = char_of (48 + n)"

function showNat :: "nat \<Rightarrow> string" where
  "showNat n = (if n < 10 then [digit n] else showNat (n div 10) @ [digit (n mod 10)])"
  by pat_completeness auto
termination
  by (relation "measure (\<lambda>n. n)") auto

declare showNat.simps [simp del]

definition showInt :: "int \<Rightarrow> string" where
  "showInt k = (if k < 0 then CHR ''-'' # showNat (nat (- k)) else showNat (nat k))"

subsection \<open>Records and their order\<close>

record nameToReplicas =
  SubsetName :: string
  Replicas :: int
  Specified :: bool

type_synonym subsetInfos = "nameToReplicas list"

type_synonym replicaMap = "(string \<times> int) list"

definition Get :: "subsetInfos \<Rightarrow> int \<Rightarrow> nameToReplicas option" where
  "Get n i = (if 0 \<le> i \<and> i < int (length n) then Some (n ! nat i) else None)"

definition Len :: "subsetInfos \<Rightarrow> int" where
  "Len n = int (length n)"

text \<open>\<^verbatim>\<open>strings.Compare\<close>: bytewise lexicographic comparison.\<close>

definition strings_Compare :: "string \<Rightarrow> string \<Rightarrow> int" where
  "strings_Compare a b = (if a = b then 0 else if a < b then - 1 else 1)"

text \<open>\<^verbatim>\<open>Less(i, j)\<close> of the source reads the records at \<open>i\<close> and \<open>j\<close>; here it takes the two
  records.\<close>

definition Less :: "nameToReplicas \<Rightarrow> nameToReplicas \<Rightarrow> bool" where
  "Less a b =
     (if Replicas a \<noteq> Replicas b then Replicas a < Replicas b
      else strings_Compare (SubsetName a) (SubsetName b) < 0)"

text \<open>\<^verbatim>\<open>sort.Sort\<close> of the Go library reorders the slice so that no later element is
  \<open>Less\<close> than an earlier one; it is not stable. It is embedded as insertion sort.\<close>

fun insertLess :: "nameToReplicas \<Rightarrow> subsetInfos \<Rightarrow> subsetInfos" where
  "insertLess x [] = [x]"
| "insertLess x (y # ys) = (if Less x y then x # y # ys else y # insertLess x ys)"

definition sort_Sort :: "subsetInfos \<Rightarrow> subsetInfos" where
  "sort_Sort n = foldr insertLess n []"

text \<open>The allocator holds only the pointer to the sorted slice.\<close>

definition SortToAllocator :: "subsetInfos \<Rightarrow> subsetInfos" where
  "SortToAllocator n = sort_Sort n"

subsection \<open>Feasibility of the specified replicas\<close>

definition greaterReason :: "int \<Rightarrow> int \<Rightarrow> string" where
  "greaterReason specifiedReplicas replicas =
     ''Specified subsets'' @ [CHR 0x27] @ '' replica ('' @ showInt specifiedReplicas
       @ '') is greater than UnitedDeployment replica ('' @ showInt replicas @ '')''"

definition lessReason :: "int \<Rightarrow> int \<Rightarrow> string" where
  "lessReason specifiedReplicas replicas =
     ''Specified subsets'' @ [CHR 0x27] @ '' replica ('' @ showInt specifiedReplicas
       @ '') is less than UnitedDeployment replica ('' @ showInt replicas @ '')''"

definition sumLimits :: "replicaMap \<Rightarrow> int" where
  "sumLimits limits = fold (\<lambda>(name, replicas) specifiedReplicas. i32 (specifiedReplicas + replicas)) limits 0"

definition countSpecified :: "subsetInfos \<Rightarrow> replicaMap \<Rightarrow> int" where
  "countSpecified subsets limits =
     fold (\<lambda>nts specifiedCount.
             if map_of limits (SubsetName nts) \<noteq> None then specifiedCount + 1 else specifiedCount)
          subsets 0"

definition effectiveReplicas :: "subsetInfos \<Rightarrow> int \<Rightarrow> replicaMap option \<Rightarrow> bool \<times> string" where
  "effectiveReplicas subsets replicas subsetReplicasLimits =
     (case subsetReplicasLimits of
        None \<Rightarrow> (True, '''')
      | Some limits \<Rightarrow>
          (let specifiedReplicas = sumLimits limits in
           if specifiedReplicas > replicas then (False, greaterReason specifiedReplicas replicas)
           else if specifiedReplicas < replicas
                   \<and> countSpecified subsets limits = Len subsets
                then (False, lessReason specifiedReplicas replicas)
           else (True, '''')))"

subsection \<open>Building the records and the specified map\<close>

text \<open>A subset definition of the topology: its name and its optional replica
  specification (an \<^verbatim>\<open>IntOrString\<close> in the source, left abstract here).\<close>

record 'spec subsetDef =
  Name :: string
  ReplicasSpec :: "'spec option"

text \<open>\<^verbatim>\<open>ParseSubsetReplicas\<close> is defined outside this file; it is a parameter \<open>parse\<close> that
  returns \<open>None\<close> for an error.\<close>

definition getSpecifiedSubsetReplicas ::
  "(int \<Rightarrow> 'spec \<Rightarrow> int option) \<Rightarrow> int \<Rightarrow> 'spec subsetDef list \<Rightarrow> replicaMap option" where
  "getSpecifiedSubsetReplicas parse udReplicas topology =
     Some (fold (\<lambda>subsetDef replicaLimits.
                   case ReplicasSpec subsetDef of
                     None \<Rightarrow> replicaLimits
                   | Some spec \<Rightarrow>
                       (case parse udReplicas spec of
                          Some specifiedReplicas \<Rightarrow>
                            AList.update (Name subsetDef) specifiedReplicas replicaLimits
                        | None \<Rightarrow> replicaLimits))
                topology [])"

definition getSubsetInfos :: "(string \<rightharpoonup> int) \<Rightarrow> 'spec subsetDef list \<Rightarrow> subsetInfos" where
  "getSubsetInfos nameToSubset topology =
     map (\<lambda>subsetDef.
            \<lparr>SubsetName = Name subsetDef,
             Replicas = (case nameToSubset (Name subsetDef) of Some r \<Rightarrow> r | None \<Rightarrow> 0),
             Specified = False\<rparr>)
         topology"

subsection \<open>The result map and the debug string\<close>

definition toSubsetReplicaMap :: "subsetInfos \<Rightarrow> replicaMap" where
  "toSubsetReplicaMap subsets =
     fold (\<lambda>nts allocatedReplicas.
             AList.update (SubsetName nts) (Replicas nts) allocatedReplicas)
          subsets []"

text \<open>\<^verbatim>\<open>String\<close> sorts the slice in place and formats it; it returns the sorted slice and the
  text.\<close>

definition String :: "subsetInfos \<Rightarrow> subsetInfos \<times> string" where
  "String subsets =
     (let sorted = sort_Sort subsets in
      (sorted,
       fold (\<lambda>nts result.
               result @ '' '' @ SubsetName nts @ '' -> '' @ showInt (Replicas nts) @ '';'')
            sorted ''''))"

subsection \<open>The normal path\<close>

text \<open>Step 1 of \<^verbatim>\<open>normalAllocate\<close>: the loop over the records, with its two accumulators.\<close>

fun applySpecified ::
  "replicaMap \<Rightarrow> subsetInfos \<Rightarrow> int \<Rightarrow> int \<Rightarrow> subsetInfos \<times> int \<times> int" where
  "applySpecified limits [] specifiedReplicas specifiedSubsetCount =
     ([], specifiedReplicas, specifiedSubsetCount)"
| "applySpecified limits (nts # rest) specifiedReplicas specifiedSubsetCount =
     (case map_of limits (SubsetName nts) of
        Some replicas \<Rightarrow>
          (case applySpecified limits rest (i32 (specifiedReplicas + replicas))
                  (specifiedSubsetCount + 1) of
             (rest', sr, sc) \<Rightarrow>
               (nts\<lparr>Replicas := replicas, Specified := True\<rparr> # rest', sr, sc))
      | None \<Rightarrow>
          (case applySpecified limits rest specifiedReplicas specifiedSubsetCount of
             (rest', sr, sc) \<Rightarrow> (nts # rest', sr, sc)))"

text \<open>Step 2: the loop \<^verbatim>\<open>for i := len - 1; i >= 0; i--\<close> with its \<^verbatim>\<open>continue\<close> and
  \<^verbatim>\<open>break\<close>.\<close>

function normalLoop :: "subsetInfos \<Rightarrow> int \<Rightarrow> int \<Rightarrow> int \<Rightarrow> int \<Rightarrow> subsetInfos option" where
  "normalLoop subsets i average remainder leftSubsetCount =
     (if i \<ge> 0 then
        (case Get subsets i of
           None \<Rightarrow> None
         | Some nts \<Rightarrow>
             if Specified nts then normalLoop subsets (i - 1) average remainder leftSubsetCount
             else
               (let subsets' =
                      (if remainder > 0
                       then subsets[nat i := nts\<lparr>Replicas := i32 (average + 1)\<rparr>]
                       else subsets[nat i := nts\<lparr>Replicas := i32 average\<rparr>]);
                    remainder' = (if remainder > 0 then remainder - 1 else remainder);
                    leftSubsetCount' = leftSubsetCount - 1
                in if leftSubsetCount' = 0 then Some subsets'
                   else normalLoop subsets' (i - 1) average remainder' leftSubsetCount'))
      else Some subsets)"
  by pat_completeness auto
termination
  by (relation "measure (\<lambda>(subsets, i, average, remainder, leftSubsetCount). nat (i + 1))") auto

declare normalLoop.simps [simp del]

text \<open>The map pointer is dereferenced in the body of the first loop only, so a
  \<^verbatim>\<open>nil\<close> pointer panics exactly when there is a record to visit. The two divisions are
  on Go \<^verbatim>\<open>int\<close> and are guarded by \<^verbatim>\<open>leftSubsetCount != 0\<close>.\<close>

definition normalAllocate ::
  "subsetInfos \<Rightarrow> int \<Rightarrow> replicaMap option \<Rightarrow> (subsetInfos \<times> replicaMap) option" where
  "normalAllocate subsets expectedReplicas specifiedSubsetReplicas =
     (case (if subsets = [] then Some [] else specifiedSubsetReplicas) of
        None \<Rightarrow> None
      | Some limits \<Rightarrow>
          (case applySpecified limits subsets 0 0 of
             (subsets1, specifiedReplicas, specifiedSubsetCount) \<Rightarrow>
               (let leftSubsetCount = Len subsets1 - specifiedSubsetCount in
                if leftSubsetCount \<noteq> 0 then
                  (let allocatableReplicas = i32 (expectedReplicas - specifiedReplicas);
                       average = allocatableReplicas sdiv leftSubsetCount;
                       remainder = allocatableReplicas smod leftSubsetCount
                   in case normalLoop subsets1 (Len subsets1 - 1) average remainder leftSubsetCount of
                        None \<Rightarrow> None
                      | Some subsets2 \<Rightarrow> Some (subsets2, toSubsetReplicaMap subsets2))
                else Some (subsets1, toSubsetReplicaMap subsets1))))"

subsection \<open>The incremental path\<close>

definition currentReplicas :: "subsetInfos \<Rightarrow> int" where
  "currentReplicas subsets = fold (\<lambda>nts cur. i32 (cur + Replicas nts)) subsets 0"

text \<open>The variables the two exclusion loops leave behind.\<close>

record loopState =
  st_i :: int
  st_expectedReplicas :: int
  st_average :: int
  st_reminder :: int
  st_leftSubsetsCount :: int

text \<open>Scale out: \<^verbatim>\<open>for i = consideredLen - 1; i >= 0; i--\<close>.\<close>

function scaleOutExclude :: "subsetInfos \<Rightarrow> loopState \<Rightarrow> loopState option" where
  "scaleOutExclude subsets st =
     (if st_i st \<ge> 0 then
        (let leftSubsetsCount' = i32 (i32 (st_i st) + 1) in
         case div32 (st_expectedReplicas st) leftSubsetsCount' of
           None \<Rightarrow> None
         | Some average' \<Rightarrow>
             (case mod32 (st_expectedReplicas st) leftSubsetsCount' of
                None \<Rightarrow> None
              | Some reminder' \<Rightarrow>
                  (let consideredAverage = (if reminder' > 0 then i32 (average' + 1) else average')
                   in case Get subsets (st_i st) of
                        None \<Rightarrow> None
                      | Some nts \<Rightarrow>
                          if consideredAverage < Replicas nts then
                            scaleOutExclude subsets
                              \<lparr>st_i = st_i st - 1,
                               st_expectedReplicas = i32 (st_expectedReplicas st - Replicas nts),
                               st_average = average', st_reminder = reminder',
                               st_leftSubsetsCount = leftSubsetsCount'\<rparr>
                          else
                            Some (st\<lparr>st_average := average', st_reminder := reminder',
                                     st_leftSubsetsCount := leftSubsetsCount'\<rparr>))))
      else Some st)"
  by pat_completeness auto
termination
  by (relation "measure (\<lambda>(subsets, st). nat (st_i st + 1))") auto

declare scaleOutExclude.simps [simp del]

text \<open>\<^verbatim>\<open>for j := i; j > -1; j--\<close>.\<close>

function scaleOutAssign :: "subsetInfos \<Rightarrow> int \<Rightarrow> int \<Rightarrow> int \<Rightarrow> subsetInfos option" where
  "scaleOutAssign subsets j average reminder =
     (if j > - 1 then
        (case Get subsets j of
           None \<Rightarrow> None
         | Some nts \<Rightarrow>
             if reminder > 0 then
               scaleOutAssign (subsets[nat j := nts\<lparr>Replicas := i32 (average + 1)\<rparr>])
                 (j - 1) average (i32 (reminder - 1))
             else
               scaleOutAssign (subsets[nat j := nts\<lparr>Replicas := average\<rparr>])
                 (j - 1) average reminder)
      else Some subsets)"
  by pat_completeness auto
termination
  by (relation "measure (\<lambda>(subsets, j, average, reminder). nat (j + 1))") auto

declare scaleOutAssign.simps [simp del]

text \<open>Scale in: \<^verbatim>\<open>for i = 0; i < consideredLen; i++\<close>.\<close>

function scaleInExclude :: "subsetInfos \<Rightarrow> int \<Rightarrow> loopState \<Rightarrow> loopState option" where
  "scaleInExclude subsets consideredLen st =
     (if st_i st < consideredLen then
        (let leftSubsetsCount' = i32 (consideredLen - st_i st) in
         case div32 (st_expectedReplicas st) leftSubsetsCount' of
           None \<Rightarrow> None
         | Some average' \<Rightarrow>
             (case mod32 (st_expectedReplicas st) leftSubsetsCount' of
                None \<Rightarrow> None
              | Some reminder' \<Rightarrow>
                  (case Get subsets (st_i st) of
                     None \<Rightarrow> None
                   | Some nts \<Rightarrow>
                       if average' > Replicas nts then
                         scaleInExclude subsets consideredLen
                           \<lparr>st_i = st_i st + 1,
                            st_expectedReplicas = i32 (st_expectedReplicas st - Replicas nts),
                            st_average = average', st_reminder = reminder',
                            st_leftSubsetsCount = leftSubsetsCount'\<rparr>
                       else
                         Some (st\<lparr>st_average := average', st_reminder := reminder',
                                  st_leftSubsetsCount := leftSubsetsCount'\<rparr>))))
      else Some st)"
  by pat_completeness auto
termination
  by (relation "measure (\<lambda>(subsets, consideredLen, st). nat (consideredLen - st_i st))") auto

declare scaleInExclude.simps [simp del]

text \<open>\<^verbatim>\<open>for j := i; j < consideredLen; j++\<close>.\<close>

function scaleInAssign ::
  "subsetInfos \<Rightarrow> int \<Rightarrow> int \<Rightarrow> int \<Rightarrow> int \<Rightarrow> int \<Rightarrow> subsetInfos option" where
  "scaleInAssign subsets consideredLen j average reminder leftSubsetsCount =
     (if j < consideredLen then
        (case Get subsets j of
           None \<Rightarrow> None
         | Some nts \<Rightarrow>
             if leftSubsetsCount \<le> reminder then
               scaleInAssign (subsets[nat j := nts\<lparr>Replicas := i32 (average + 1)\<rparr>])
                 consideredLen (j + 1) average reminder leftSubsetsCount
             else
               scaleInAssign (subsets[nat j := nts\<lparr>Replicas := average\<rparr>])
                 consideredLen (j + 1) average reminder (i32 (leftSubsetsCount - 1)))
      else Some subsets)"
  by pat_completeness auto
termination
  by (relation "measure (\<lambda>(subsets, consideredLen, j, average, reminder, leftSubsetsCount).
                           nat (consideredLen - j))") auto

declare scaleInAssign.simps [simp del]

definition initState :: "int \<Rightarrow> int \<Rightarrow> loopState" where
  "initState i expectedReplicas =
     \<lparr>st_i = i, st_expectedReplicas = expectedReplicas, st_average = 0, st_reminder = 0, st_leftSubsetsCount = 0\<rparr>"

definition incrementalAllocate :: "subsetInfos \<Rightarrow> int \<Rightarrow> (subsetInfos \<times> replicaMap) option" where
  "incrementalAllocate subsets expectedReplicas =
     (let consideredLen = Len subsets;
          diff = i32 (expectedReplicas - currentReplicas subsets)
      in if diff > 0 then
           (case scaleOutExclude subsets (initState (consideredLen - 1) expectedReplicas) of
              None \<Rightarrow> None
            | Some st \<Rightarrow>
                (case scaleOutAssign subsets (st_i st) (st_average st) (st_reminder st) of
                   None \<Rightarrow> None
                 | Some subsets' \<Rightarrow> Some (subsets', toSubsetReplicaMap subsets')))
         else if diff < 0 then
           (case scaleInExclude subsets consideredLen (initState 0 expectedReplicas) of
              None \<Rightarrow> None
            | Some st \<Rightarrow>
                (case scaleInAssign subsets consideredLen (st_i st) (st_average st) (st_reminder st)
                        (st_leftSubsetsCount st) of
                   None \<Rightarrow> None
                 | Some subsets' \<Rightarrow> Some (subsets', toSubsetReplicaMap subsets')))
         else Some (subsets, toSubsetReplicaMap subsets))"

subsection \<open>The entry points\<close>

definition AllocateReplicas ::
  "subsetInfos \<Rightarrow> int \<Rightarrow> replicaMap option \<Rightarrow> (subsetInfos \<times> replicaMap \<times> bool \<times> string) option" where
  "AllocateReplicas subsets replicas specifiedSubsetReplicas =
     (case effectiveReplicas subsets replicas specifiedSubsetReplicas of
        (effective, reason) \<Rightarrow>
          if \<not> effective then
            (case incrementalAllocate subsets replicas of
               None \<Rightarrow> None
             | Some (subsets', m) \<Rightarrow> Some (subsets', m, False, reason))
          else
            (case normalAllocate subsets replicas specifiedSubsetReplicas of
               None \<Rightarrow> None
             | Some (subsets', m) \<Rightarrow> Some (subsets', m, True, '''')))"

definition GetAllocatedReplicas ::
  "(int \<Rightarrow> 'spec \<Rightarrow> int option) \<Rightarrow> (string \<rightharpoonup> int) \<Rightarrow> int \<Rightarrow> 'spec subsetDef list
     \<Rightarrow> (subsetInfos \<times> replicaMap \<times> bool \<times> string) option" where
  "GetAllocatedReplicas parse nameToSubset udReplicas topology =
     (let subsetInfos = getSubsetInfos nameToSubset topology;
          specifiedReplicas = getSpecifiedSubsetReplicas parse udReplicas topology
      in AllocateReplicas (SortToAllocator subsetInfos) udReplicas specifiedReplicas)"

subsection \<open>Notions used to state the properties\<close>

text \<open>The values an \<^verbatim>\<open>int32\<close> can hold.\<close>

definition is_int32 :: "int \<Rightarrow> bool" where
  "is_int32 x = (- (2 ^ 31) \<le> x \<and> x < 2 ^ 31)"

text \<open>The sum of the values of a result map.\<close>

definition sumValues :: "replicaMap \<Rightarrow> int" where
  "sumValues m = sum_list (map snd m)"

text \<open>What is left of the total \<open>T\<close> once the first \<open>k\<close> records keep their current
  replicas.\<close>

definition remainingPool :: "subsetInfos \<Rightarrow> int \<Rightarrow> nat \<Rightarrow> int" where
  "remainingPool subsets T k = T - sum_list (map Replicas (take k subsets))"

text \<open>The records a walk of the normal path does not skip, and their replicas.\<close>

definition unpinnedCount :: "subsetInfos \<Rightarrow> nat" where
  "unpinnedCount xs = length (filter (\<lambda>nts. \<not> Specified nts) xs)"

definition unpinnedSum :: "subsetInfos \<Rightarrow> int" where
  "unpinnedSum xs = sum_list (map Replicas (filter (\<lambda>nts. \<not> Specified nts) xs))"

text \<open>Step 1 of the normal path on one record.\<close>

definition pin :: "replicaMap \<Rightarrow> nameToReplicas \<Rightarrow> nameToReplicas" where
  "pin limits nts =
     (case map_of limits (SubsetName nts) of
        Some replicas \<Rightarrow> nts\<lparr>Replicas := replicas, Specified := True\<rparr>
      | None \<Rightarrow> nts)"

text \<open>The sum of the specified replicas of the records named in the map, the number of
  these records, and the number of records after index \<open>k\<close> that the map does not name.\<close>

definition specifiedSum :: "replicaMap \<Rightarrow> subsetInfos \<Rightarrow> int" where
  "specifiedSum limits subsets =
     sum_list (map (\<lambda>nts. case map_of limits (SubsetName nts) of
                              Some replicas \<Rightarrow> replicas | None \<Rightarrow> 0) subsets)"

definition specifiedCount :: "replicaMap \<Rightarrow> subsetInfos \<Rightarrow> nat" where
  "specifiedCount limits subsets =
     length (filter (\<lambda>nts. map_of limits (SubsetName nts) \<noteq> None) subsets)"

definition freeAbove :: "replicaMap \<Rightarrow> subsetInfos \<Rightarrow> nat \<Rightarrow> nat" where
  "freeAbove limits subsets k =
     length (filter (\<lambda>nts. map_of limits (SubsetName nts) = None) (drop (Suc k) subsets))"

text \<open>The specified replicas of a name, 0 for a name the map does not hold.\<close>

definition limitOf :: "replicaMap \<Rightarrow> string \<Rightarrow> int" where
  "limitOf limits name = (case map_of limits name of Some replicas \<Rightarrow> replicas | None \<Rightarrow> 0)"

text \<open>The text \<^verbatim>\<open>String\<close> builds from the records in the order it is given them.\<close>

definition formatRecords :: "subsetInfos \<Rightarrow> string" where
  "formatRecords subsets =
     fold (\<lambda>nts result.
             result @ '' '' @ SubsetName nts @ '' -> '' @ showInt (Replicas nts) @ '';'')
          subsets ''''"

text \<open>What \<^verbatim>\<open>sort.Sort\<close> promises of its result: no record is \<open>Less\<close> than an earlier
  one.\<close>

definition noInversion :: "subsetInfos \<Rightarrow> bool" where
  "noInversion subsets = sorted_wrt (\<lambda>a b. \<not> Less b a) subsets"

section \<open>Basic facts\<close>

lemma i32_id: "is_int32 x \<Longrightarrow> i32 x = x"
  unfolding i32_def is_int32_def
  by (simp add: mod_pos_pos_trivial)

lemma i32_add_left: "i32 (i32 a + b) = i32 (a + b)"
proof -
  have "(((a + 2 ^ 31) mod 2 ^ 32 - 2 ^ 31) + b + 2 ^ 31) mod (2 ^ 32 :: int)
      = ((a + 2 ^ 31) mod 2 ^ 32 + b) mod 2 ^ 32"
    by (simp add: algebra_simps)
  also have "\<dots> = (a + 2 ^ 31 + b) mod 2 ^ 32"
    by (rule mod_add_left_eq)
  finally show ?thesis
    by (simp add: i32_def algebra_simps)
qed

lemma i32_0: "i32 0 = 0"
  by (simp add: i32_def)

lemma update_fresh: "k \<notin> fst ` set al \<Longrightarrow> AList.update k v al = al @ [(k, v)]"
  by (induction al) auto

lemma fold_update_fresh:
  "distinct (map fst acc @ map SubsetName subsets) \<Longrightarrow>
   fold (\<lambda>nts allocatedReplicas. AList.update (SubsetName nts) (Replicas nts) allocatedReplicas)
        subsets acc
   = acc @ map (\<lambda>nts. (SubsetName nts, Replicas nts)) subsets"
proof (induction subsets arbitrary: acc)
  case Nil
  then show ?case by simp
next
  case (Cons a subsets)
  from Cons.prems have fresh: "SubsetName a \<notin> fst ` set acc" by auto
  from Cons.prems
  have "distinct (map fst (acc @ [(SubsetName a, Replicas a)]) @ map SubsetName subsets)"
    by auto
  from Cons.IH [OF this] show ?case
    by (simp add: update_fresh [OF fresh])
qed

lemma toSubsetReplicaMap_distinct:
  "distinct (map SubsetName subsets) \<Longrightarrow>
   toSubsetReplicaMap subsets = map (\<lambda>nts. (SubsetName nts, Replicas nts)) subsets"
  unfolding toSubsetReplicaMap_def using fold_update_fresh [of "[]" subsets] by simp

lemma sumValues_toSubsetReplicaMap:
  "distinct (map SubsetName subsets) \<Longrightarrow>
   sumValues (toSubsetReplicaMap subsets) = sum_list (map Replicas subsets)"
  by (simp add: toSubsetReplicaMap_distinct sumValues_def comp_def)

lemma map_of_toSubsetReplicaMap:
  assumes d: "distinct (map SubsetName subsets)" and m: "nts \<in> set subsets"
  shows "map_of (toSubsetReplicaMap subsets) (SubsetName nts) = Some (Replicas nts)"
proof -
  have "distinct (map fst (map (\<lambda>nts. (SubsetName nts, Replicas nts)) subsets))"
    using d by (simp add: comp_def)
  moreover
  have "(SubsetName nts, Replicas nts) \<in> set (map (\<lambda>nts. (SubsetName nts, Replicas nts)) subsets)"
    using m by auto
  ultimately show ?thesis
    unfolding toSubsetReplicaMap_distinct [OF d] by (rule map_of_is_SomeI)
qed

lemma currentReplicas_fold:
  "fold (\<lambda>nts cur. i32 (cur + Replicas nts)) subsets (i32 acc)
   = i32 (acc + sum_list (map Replicas subsets))"
proof (induction subsets arbitrary: acc)
  case Nil
  then show ?case by simp
next
  case (Cons a subsets)
  show ?case
    using Cons.IH [of "acc + Replicas a"] by (simp add: i32_add_left add.assoc)
qed

lemma currentReplicas_eq: "currentReplicas subsets = i32 (sum_list (map Replicas subsets))"
  unfolding currentReplicas_def using currentReplicas_fold [of subsets 0] by (simp add: i32_0)

lemma sumLimits_fold:
  "fold (\<lambda>(name, replicas) specifiedReplicas. i32 (specifiedReplicas + replicas)) limits (i32 acc)
   = i32 (acc + sum_list (map snd limits))"
proof (induction limits arbitrary: acc)
  case Nil
  then show ?case by simp
next
  case (Cons a limits)
  show ?case
    using Cons.IH [of "acc + snd a"] by (simp add: i32_add_left add.assoc case_prod_unfold)
qed

lemma sumLimits_eq: "sumLimits limits = i32 (sum_list (map snd limits))"
  unfolding sumLimits_def using sumLimits_fold [of limits 0] by (simp add: i32_0)

lemma effectiveReplicas_True:
  "fst (effectiveReplicas subsets T lim) \<Longrightarrow> effectiveReplicas subsets T lim = (True, '''')"
  by (auto simp: effectiveReplicas_def Let_def split: option.splits if_splits)

lemma countSpecified_fold:
  "fold (\<lambda>nts specifiedCount. if P nts then specifiedCount + 1 else specifiedCount) subsets c
   = c + int (length (filter P subsets))"
  by (induction subsets arbitrary: c) auto

lemma countSpecified_eq:
  "countSpecified subsets limits
   = int (length (filter (\<lambda>nts. SubsetName nts \<in> fst ` set limits) subsets))"
  unfolding countSpecified_def
  by (simp add: countSpecified_fold map_of_eq_None_iff)

lemma sdiv_nonneg: "0 \<le> a \<Longrightarrow> 0 < b \<Longrightarrow> a sdiv b = a div (b::int)"
  by (simp add: signed_divide_int_def sgn_if)

lemma smod_nonneg: "0 \<le> a \<Longrightarrow> 0 < b \<Longrightarrow> a smod b = a mod (b::int)"
  by (simp add: smod_mod_positive)

lemma div_in_range: "0 \<le> a \<Longrightarrow> is_int32 a \<Longrightarrow> 0 < b \<Longrightarrow> is_int32 (a div b)"
proof -
  assume a: "0 \<le> a" "is_int32 a" "0 < b"
  have "a div b \<le> a" using a zdiv_mono2 [of a 1 b] by simp
  moreover have "0 \<le> a div b" using a by (simp add: pos_imp_zdiv_nonneg_iff)
  ultimately show ?thesis using a by (simp add: is_int32_def)
qed

lemma div32_pos: "0 \<le> a \<Longrightarrow> is_int32 a \<Longrightarrow> 0 < b \<Longrightarrow> div32 a b = Some (a div b)"
  by (simp add: div32_def sdiv_nonneg i32_id div_in_range)

lemma mod32_pos: "0 \<le> a \<Longrightarrow> 0 < b \<Longrightarrow> mod32 a b = Some (a mod b)"
  by (simp add: mod32_def smod_nonneg)

lemma div_plus1_le:
  assumes "0 \<le> E" "0 < c" "0 < E mod c"
  shows "E div c + 1 \<le> (E::int)"
proof -
  have c2: "2 \<le> c"
  proof (rule ccontr)
    assume "\<not> 2 \<le> c"
    with assms(2) have "c = 1" by simp
    with assms(3) show False by simp
  qed
  have q: "0 \<le> E div c" using assms by (simp add: pos_imp_zdiv_nonneg_iff)
  have "E = c * (E div c) + E mod c" by simp
  moreover have "2 * (E div c) \<le> c * (E div c)"
    using c2 q by (simp add: mult_right_mono)
  ultimately show ?thesis using assms(3) q by linarith
qed

lemma sum_list_map_update:
  "k < length xs \<Longrightarrow>
   sum_list (map f (xs[k := x])) = sum_list (map f xs) - f (xs ! k) + (f x :: int)"
proof (induction xs arbitrary: k)
  case Nil
  then show ?case by simp
next
  case (Cons a xs)
  then show ?case by (cases k) auto
qed

lemma sum_take_Suc:
  "k < length xs \<Longrightarrow>
   sum_list (map f (take (Suc k) xs)) = sum_list (map f (take k xs)) + (f (xs ! k) :: int)"
  by (simp add: take_Suc_conv_app_nth)

lemma sum_take_nonneg:
  "\<forall>x\<in>set xs. 0 \<le> (f x :: int) \<Longrightarrow> 0 \<le> sum_list (map f (take k xs))"
  by (rule sum_list_nonneg) (auto dest: in_set_takeD)

lemma Get_in_range: "0 \<le> i \<Longrightarrow> i < int (length n) \<Longrightarrow> Get n i = Some (n ! nat i)"
  by (simp add: Get_def)

lemma scaleOutExclude_spec:
  assumes nonneg: "\<forall>x\<in>set subsets. 0 \<le> Replicas x"
    and len: "int (length subsets) < 2 ^ 31"
    and D: "0 < D"
    and i_lo: "- 1 \<le> st_i st" and i_hi: "st_i st < int (length subsets)"
    and E: "st_expectedReplicas st
              = D + sum_list (map Replicas (take (nat (st_i st + 1)) subsets))"
    and Er: "is_int32 (st_expectedReplicas st)"
  shows "\<exists>st'. scaleOutExclude subsets st = Some st'
          \<and> st_i st' \<le> st_i st \<and> (0 \<le> st_i st \<longrightarrow> 0 \<le> st_i st')
          \<and> st_expectedReplicas st'
              = D + sum_list (map Replicas (take (nat (st_i st' + 1)) subsets))
          \<and> is_int32 (st_expectedReplicas st')
          \<and> (0 \<le> st_i st' \<longrightarrow>
                st_average st' = st_expectedReplicas st' div (st_i st' + 1)
              \<and> st_reminder st' = st_expectedReplicas st' mod (st_i st' + 1))"
  using i_lo i_hi E Er
proof (induction "nat (st_i st + 1)" arbitrary: st)
  case 0
  then have "\<not> 0 \<le> st_i st" by simp
  then show ?case
    using "0.prems" by (simp add: scaleOutExclude.simps [of subsets st])
next
  case (Suc n)
  define i where "i = st_i st"
  define E where "E = st_expectedReplicas st"
  define c where "c = i + 1"
  define r where "r = Replicas (subsets ! nat i)"
  define S where "S = sum_list (map Replicas (take (nat i) subsets))"
  have i0: "0 \<le> i" and iN: "i < int (length subsets)"
    using Suc.hyps(2) Suc.prems by (simp_all add: i_def)
  have c_pos: "0 < c" using i0 by (simp add: c_def)
  have cnt: "i32 (i32 i + 1) = c"
    using i0 iN len by (simp add: c_def i32_id is_int32_def)
  have nat_c: "nat (i + 1) = Suc (nat i)" using i0 by simp
  have r0: "0 \<le> r" using nonneg iN i0 by (simp add: r_def)
  have S0: "0 \<le> S" unfolding S_def using nonneg by (rule sum_take_nonneg)
  have E_eq: "E = D + S + r"
    using Suc.prems(3) i0 iN
    by (simp add: E_def i_def [symmetric] nat_c sum_take_Suc S_def r_def)
  have E0: "0 \<le> E" using E_eq D S0 r0 by simp
  have Er: "is_int32 E" using Suc.prems(4) by (simp add: E_def)
  have dv: "div32 E c = Some (E div c)" using E0 Er c_pos by (rule div32_pos)
  have md: "mod32 E c = Some (E mod c)" using E0 c_pos by (rule mod32_pos)
  have gt: "Get subsets i = Some (subsets ! nat i)" using i0 iN by (rule Get_in_range)
  have q1: "0 < E mod c \<Longrightarrow> i32 (E div c + 1) = E div c + 1"
  proof -
    assume "0 < E mod c"
    then have "E div c + 1 \<le> E" using E0 c_pos by (simp add: div_plus1_le)
    moreover have "0 \<le> E div c" using E0 c_pos by (simp add: pos_imp_zdiv_nonneg_iff)
    ultimately show ?thesis using Er by (simp add: i32_id is_int32_def)
  qed
  define ca where "ca = (if 0 < E mod c then E div c + 1 else E div c)"
  have ca: "(if 0 < E mod c then i32 (E div c + 1) else E div c) = ca"
    using q1 by (simp add: ca_def)
  show ?case
  proof (cases "ca < r")
    case False
    have "scaleOutExclude subsets st
          = Some (st\<lparr>st_average := E div c, st_reminder := E mod c,
                      st_leftSubsetsCount := c\<rparr>)"
      using i0 False
      by (simp add: scaleOutExclude.simps [of subsets st] i_def [symmetric] E_def [symmetric]
          cnt dv md gt ca r_def [symmetric])
    then show ?thesis
      using Suc.prems i0
      by (simp add: i_def [symmetric] E_def [symmetric] c_def)
  next
    case True
    define st1 where "st1 = \<lparr>st_i = i - 1, st_expectedReplicas = i32 (E - r),
                             st_average = E div c, st_reminder = E mod c,
                             st_leftSubsetsCount = c\<rparr>"
    have unf: "scaleOutExclude subsets st = scaleOutExclude subsets st1"
      using i0 True
      by (simp add: scaleOutExclude.simps [of subsets st] i_def [symmetric] E_def [symmetric]
          cnt dv md gt ca r_def [symmetric] st1_def)
    have i_pos: "0 < i"
    proof (rule ccontr)
      assume "\<not> 0 < i"
      with i0 have z: "i = 0" by simp
      then have "S = 0" by (simp add: S_def)
      with z E_eq have "ca = D + r" by (simp add: ca_def c_def)
      with True D show False by simp
    qed
    have Er1: "is_int32 (E - r)"
      using Er E_eq D S0 r0 by (simp add: is_int32_def)
    have e1: "i32 (E - r) = D + S" using Er1 E_eq by (simp add: i32_id)
    have m: "n = nat (st_i st1 + 1)"
      using Suc.hyps(2) i0 by (simp add: st1_def i_def)
    have p1: "- 1 \<le> st_i st1" using i0 by (simp add: st1_def)
    have p2: "st_i st1 < int (length subsets)" using iN by (simp add: st1_def)
    have p3: "st_expectedReplicas st1
                = D + sum_list (map Replicas (take (nat (st_i st1 + 1)) subsets))"
      by (simp add: st1_def e1 S_def)
    have p4: "is_int32 (st_expectedReplicas st1)"
      using Er1 by (simp add: st1_def i32_id)
    from Suc.hyps(1) [OF m p1 p2 p3 p4] obtain st' where
      r: "scaleOutExclude subsets st1 = Some st'"
         "st_i st' \<le> st_i st1" "0 \<le> st_i st1 \<longrightarrow> 0 \<le> st_i st'"
         "st_expectedReplicas st'
              = D + sum_list (map Replicas (take (nat (st_i st' + 1)) subsets))"
         "is_int32 (st_expectedReplicas st')"
         "0 \<le> st_i st' \<longrightarrow>
                st_average st' = st_expectedReplicas st' div (st_i st' + 1)
              \<and> st_reminder st' = st_expectedReplicas st' mod (st_i st' + 1)"
      by blast
    have "st_i st' \<le> st_i st" using r(2) by (simp add: st1_def i_def)
    moreover have "0 \<le> st_i st'" using r(3) i_pos by (simp add: st1_def)
    ultimately show ?thesis
      using unf r(1,4,5,6) by simp
  qed
qed


lemma map_SubsetName_update:
  "k < length xs \<Longrightarrow> map SubsetName (xs[k := (xs ! k)\<lparr>Replicas := v\<rparr>]) = map SubsetName xs"
  by (simp add: map_update list_update_same_conv)

lemma map_Specified_update:
  "k < length xs \<Longrightarrow> map Specified (xs[k := (xs ! k)\<lparr>Replicas := v\<rparr>]) = map Specified xs"
  by (simp add: map_update list_update_same_conv)

lemma scaleOutAssign_spec:
  assumes "- 1 \<le> j" and "j < int (length subsets)"
    and "0 \<le> reminder" and "reminder \<le> j + 1" and "is_int32 reminder"
    and "0 < reminder \<longrightarrow> is_int32 (average + 1)"
  shows "\<exists>subsets'. scaleOutAssign subsets j average reminder = Some subsets'
          \<and> length subsets' = length subsets
          \<and> map SubsetName subsets' = map SubsetName subsets
          \<and> (\<forall>k. nat (j + 1) \<le> k \<and> k < length subsets \<longrightarrow> subsets' ! k = subsets ! k)
          \<and> (\<forall>k < nat (j + 1).
                Replicas (subsets' ! k) = average + (if j - int k < reminder then 1 else 0))
          \<and> sum_list (map Replicas subsets')
              = sum_list (map Replicas subsets)
                - sum_list (map Replicas (take (nat (j + 1)) subsets))
                + (j + 1) * average + reminder"
  using assms
proof (induction "nat (j + 1)" arbitrary: j subsets reminder)
  case 0
  then have "\<not> - 1 < j" by simp
  then have "scaleOutAssign subsets j average reminder = Some subsets"
    by (simp add: scaleOutAssign.simps [of subsets j])
  moreover from 0 have "j = - 1" by simp
  ultimately show ?case
    using "0.prems" by simp
next
  case (Suc n)
  have j0: "0 \<le> j" using Suc.hyps(2) by simp
  have jN: "nat j < length subsets" using Suc.prems(2) j0 by simp
  have nat_j: "nat (j + 1) = Suc (nat j)" using j0 by simp
  define x where "x = subsets ! nat j"
  define d where "d = (if 0 < reminder then 1 else 0 :: int)"
  define rem1 where "rem1 = reminder - d"
  define subsets1 where "subsets1 = subsets[nat j := x\<lparr>Replicas := average + d\<rparr>]"
  have gt: "Get subsets j = Some x"
    using j0 Suc.prems(2) by (simp add: Get_in_range x_def)
  have unf: "scaleOutAssign subsets j average reminder
             = scaleOutAssign subsets1 (j - 1) average rem1"
    using j0 Suc.prems(5,6)
    by (simp add: scaleOutAssign.simps [of subsets j] gt subsets1_def d_def rem1_def i32_id
        is_int32_def)
  have len1: "length subsets1 = length subsets" by (simp add: subsets1_def)
  have q1: "n = nat (j - 1 + 1)" using Suc.hyps(2) by simp
  have q2: "- 1 \<le> j - 1" using j0 by simp
  have q3: "j - 1 < int (length subsets1)" using Suc.prems(2) by (simp add: len1)
  have q4: "0 \<le> rem1" using Suc.prems(3) by (simp add: rem1_def d_def)
  have q5: "rem1 \<le> j - 1 + 1" using Suc.prems(3,4) j0 by (simp add: rem1_def d_def)
  have q6: "is_int32 rem1" using Suc.prems(3,5) by (simp add: rem1_def d_def is_int32_def)
  have q7: "0 < rem1 \<longrightarrow> is_int32 (average + 1)"
    using Suc.prems(6) by (simp add: rem1_def d_def split: if_splits)
  from Suc.hyps(1) [OF q1 q2 q3 q4 q5 q6 q7] obtain subsets' where
    r: "scaleOutAssign subsets1 (j - 1) average rem1 = Some subsets'"
       "length subsets' = length subsets1"
       "map SubsetName subsets' = map SubsetName subsets1"
       "\<forall>k. nat (j - 1 + 1) \<le> k \<and> k < length subsets1 \<longrightarrow> subsets' ! k = subsets1 ! k"
       "\<forall>k < nat (j - 1 + 1).
           Replicas (subsets' ! k) = average + (if j - 1 - int k < rem1 then 1 else 0)"
       "sum_list (map Replicas subsets')
          = sum_list (map Replicas subsets1)
            - sum_list (map Replicas (take (nat (j - 1 + 1)) subsets1))
            + (j - 1 + 1) * average + rem1"
    by blast
  have c1: "length subsets' = length subsets" using r(2) len1 by simp
  have c2: "map SubsetName subsets' = map SubsetName subsets"
    using r(3) jN by (simp add: subsets1_def x_def map_SubsetName_update)
  have c3: "\<forall>k. nat (j + 1) \<le> k \<and> k < length subsets \<longrightarrow> subsets' ! k = subsets ! k"
  proof (intro allI impI)
    fix k assume k: "nat (j + 1) \<le> k \<and> k < length subsets"
    then have "nat (j - 1 + 1) \<le> k \<and> k < length subsets1" using nat_j len1 by simp
    with r(4) have "subsets' ! k = subsets1 ! k" by blast
    also have "\<dots> = subsets ! k" using k nat_j by (simp add: subsets1_def)
    finally show "subsets' ! k = subsets ! k" .
  qed
  have c4: "\<forall>k < nat (j + 1).
              Replicas (subsets' ! k) = average + (if j - int k < reminder then 1 else 0)"
  proof (intro allI impI)
    fix k assume k: "k < nat (j + 1)"
    show "Replicas (subsets' ! k) = average + (if j - int k < reminder then 1 else 0)"
    proof (cases "k = nat j")
      case True
      then have "nat (j - 1 + 1) \<le> k \<and> k < length subsets1" using jN len1 by simp
      with r(4) have "subsets' ! k = subsets1 ! k" by blast
      then show ?thesis using True jN j0 by (simp add: subsets1_def d_def)
    next
      case False
      with k nat_j have kj: "k < nat j" by simp
      then have "Replicas (subsets' ! k) = average + (if j - 1 - int k < rem1 then 1 else 0)"
        using r(5) by simp
      moreover have "(j - 1 - int k < rem1) = (j - int k < reminder)"
        using kj Suc.prems(3) by (auto simp: rem1_def d_def)
      ultimately show ?thesis by simp
    qed
  qed
  have s1: "sum_list (map Replicas subsets1)
            = sum_list (map Replicas subsets) - Replicas x + (average + d)"
    using jN by (simp add: subsets1_def sum_list_map_update x_def)
  have s2: "take (nat j) subsets1 = take (nat j) subsets" by (simp add: subsets1_def)
  have s3: "sum_list (map Replicas (take (nat (j + 1)) subsets))
            = sum_list (map Replicas (take (nat j) subsets)) + Replicas x"
    using jN by (simp add: nat_j sum_take_Suc x_def)
  have c5: "sum_list (map Replicas subsets')
              = sum_list (map Replicas subsets)
                - sum_list (map Replicas (take (nat (j + 1)) subsets))
                + (j + 1) * average + reminder"
    using r(6) s1 s2 s3 by (simp add: rem1_def algebra_simps)
  show ?case using unf r(1) c1 c2 c3 c4 c5 by simp
qed

lemma scaleInExclude_spec:
  assumes nonneg: "\<forall>x\<in>set subsets. 0 \<le> Replicas x"
    and len: "int (length subsets) < 2 ^ 31"
    and less: "T < sum_list (map Replicas subsets)"
    and i_lo: "0 \<le> st_i st" and i_hi: "st_i st \<le> int (length subsets)"
    and E: "st_expectedReplicas st = T - sum_list (map Replicas (take (nat (st_i st)) subsets))"
    and E0: "0 \<le> st_expectedReplicas st"
    and Er: "is_int32 (st_expectedReplicas st)"
  shows "\<exists>st'. scaleInExclude subsets (int (length subsets)) st = Some st'
          \<and> st_i st \<le> st_i st' \<and> st_i st' \<le> int (length subsets)
          \<and> (st_i st < int (length subsets) \<longrightarrow> st_i st' < int (length subsets))
          \<and> st_expectedReplicas st'
              = T - sum_list (map Replicas (take (nat (st_i st')) subsets))
          \<and> 0 \<le> st_expectedReplicas st' \<and> is_int32 (st_expectedReplicas st')
          \<and> (st_i st' < int (length subsets) \<longrightarrow>
                st_leftSubsetsCount st' = int (length subsets) - st_i st'
              \<and> st_average st' = st_expectedReplicas st' div (int (length subsets) - st_i st')
              \<and> st_reminder st' = st_expectedReplicas st' mod (int (length subsets) - st_i st')
              \<and> st_average st' \<le> Replicas (subsets ! nat (st_i st')))
          \<and> (\<forall>k. nat (st_i st) \<le> k \<and> k < nat (st_i st') \<longrightarrow>
                Replicas (subsets ! k)
                  < (T - sum_list (map Replicas (take k subsets))) div (int (length subsets) - int k))"
  using i_lo i_hi E E0 Er
proof (induction "nat (int (length subsets) - st_i st)" arbitrary: st)
  case 0
  then have stop: "\<not> st_i st < int (length subsets)" by simp
  then have "scaleInExclude subsets (int (length subsets)) st = Some st"
    by (simp add: scaleInExclude.simps [of subsets _ st])
  then show ?case
    using "0.prems" stop by simp
next
  case (Suc m)
  define n where "n = int (length subsets)"
  define i where "i = st_i st"
  define E where "E = st_expectedReplicas st"
  define c where "c = n - i"
  define r where "r = Replicas (subsets ! nat i)"
  define S where "S = sum_list (map Replicas (take (nat i) subsets))"
  have i0: "0 \<le> i" and iN: "i < n"
    using Suc.hyps(2) Suc.prems by (simp_all add: i_def n_def)
  have c_pos: "0 < c" using iN by (simp add: c_def)
  have cnt: "i32 (n - i) = c"
    using i0 iN len by (simp add: c_def i32_id is_int32_def n_def)
  have r0: "0 \<le> r" using nonneg iN i0 by (simp add: r_def n_def)
  have E_eq: "E = T - S"
    using Suc.prems(3) by (simp add: E_def i_def S_def)
  have E0: "0 \<le> E" using Suc.prems(4) by (simp add: E_def)
  have Er: "is_int32 E" using Suc.prems(5) by (simp add: E_def)
  have dv: "div32 E c = Some (E div c)" using E0 Er c_pos by (rule div32_pos)
  have md: "mod32 E c = Some (E mod c)" using E0 c_pos by (rule mod32_pos)
  have gt: "Get subsets i = Some (subsets ! nat i)"
    using i0 iN by (simp add: Get_in_range n_def)
  have q_le: "E div c \<le> E" using E0 c_pos zdiv_mono2 [of E 1 c] by simp
  show ?case
  proof (cases "E div c > r")
    case False
    have "scaleInExclude subsets n st
          = Some (st\<lparr>st_average := E div c, st_reminder := E mod c,
                      st_leftSubsetsCount := c\<rparr>)"
      using iN False
      by (simp add: scaleInExclude.simps [of subsets n st] i_def [symmetric] E_def [symmetric]
          cnt dv md gt r_def [symmetric])
    then show ?thesis
      using Suc.prems iN False
      by (simp add: i_def [symmetric] E_def [symmetric] n_def [symmetric] c_def r_def)
  next
    case True
    define st1 where "st1 = \<lparr>st_i = i + 1, st_expectedReplicas = i32 (E - r),
                             st_average = E div c, st_reminder = E mod c,
                             st_leftSubsetsCount = c\<rparr>"
    have unf: "scaleInExclude subsets n st = scaleInExclude subsets n st1"
      using iN True
      by (simp add: scaleInExclude.simps [of subsets n st] i_def [symmetric] E_def [symmetric]
          cnt dv md gt r_def [symmetric] st1_def)
    have Er1: "is_int32 (E - r)"
      using Er r0 True q_le by (simp add: is_int32_def)
    have e1: "i32 (E - r) = E - r" using Er1 by (simp add: i32_id)
    have S1: "sum_list (map Replicas (take (nat (i + 1)) subsets)) = S + r"
      using i0 iN by (simp add: nat_add_distrib sum_take_Suc S_def r_def n_def)
    have i1_lt: "i + 1 < n"
    proof (rule ccontr)
      assume "\<not> i + 1 < n"
      with iN have z: "i + 1 = n" by simp
      then have "take (nat (i + 1)) subsets = subsets" by (simp add: n_def)
      with S1 have "sum_list (map Replicas subsets) = S + r" by simp
      with less E_eq have "E < r" by simp
      moreover from z have "c = 1" by (simp add: c_def)
      ultimately show False using True by simp
    qed
    have m: "m = nat (int (length subsets) - st_i st1)"
      using Suc.hyps(2) by (simp add: st1_def i_def)
    have p1: "0 \<le> st_i st1" using i0 by (simp add: st1_def)
    have p2: "st_i st1 \<le> int (length subsets)" using i1_lt by (simp add: st1_def n_def)
    have p3: "st_expectedReplicas st1
                = T - sum_list (map Replicas (take (nat (st_i st1)) subsets))"
      using E_eq e1 by (simp add: st1_def S1)
    have p4: "0 \<le> st_expectedReplicas st1"
      using True q_le by (simp add: st1_def e1)
    have p5: "is_int32 (st_expectedReplicas st1)"
      using Er1 by (simp add: st1_def e1)
    from Suc.hyps(1) [OF m p1 p2 p3 p4 p5] obtain st' where
      r: "scaleInExclude subsets (int (length subsets)) st1 = Some st'"
         "st_i st1 \<le> st_i st'" "st_i st' \<le> int (length subsets)"
         "st_i st1 < int (length subsets) \<longrightarrow> st_i st' < int (length subsets)"
         "st_expectedReplicas st'
              = T - sum_list (map Replicas (take (nat (st_i st')) subsets))"
         "0 \<le> st_expectedReplicas st'" "is_int32 (st_expectedReplicas st')"
         "st_i st' < int (length subsets) \<longrightarrow>
                st_leftSubsetsCount st' = int (length subsets) - st_i st'
              \<and> st_average st' = st_expectedReplicas st' div (int (length subsets) - st_i st')
              \<and> st_reminder st' = st_expectedReplicas st' mod (int (length subsets) - st_i st')
              \<and> st_average st' \<le> Replicas (subsets ! nat (st_i st'))"
         "\<forall>k. nat (st_i st1) \<le> k \<and> k < nat (st_i st') \<longrightarrow>
                Replicas (subsets ! k)
                  < (T - sum_list (map Replicas (take k subsets))) div (int (length subsets) - int k)"
      by blast
    have a1: "st_i st \<le> st_i st'" using r(2) by (simp add: st1_def i_def)
    have a2: "st_i st' < int (length subsets)" using r(4) i1_lt by (simp add: st1_def n_def)
    have a3: "\<forall>k. nat (st_i st) \<le> k \<and> k < nat (st_i st') \<longrightarrow>
                Replicas (subsets ! k)
                  < (T - sum_list (map Replicas (take k subsets))) div (int (length subsets) - int k)"
    proof (intro allI impI)
      fix k assume k: "nat (st_i st) \<le> k \<and> k < nat (st_i st')"
      show "Replicas (subsets ! k)
                  < (T - sum_list (map Replicas (take k subsets))) div (int (length subsets) - int k)"
      proof (cases "k = nat i")
        case True
        then have "int k = i" using i0 by simp
        with \<open>E div c > r\<close> True show ?thesis
          by (simp add: r_def E_eq S_def c_def n_def)
      next
        case False
        with k have "nat (st_i st1) \<le> k \<and> k < nat (st_i st')"
          using i0 by (simp add: st1_def i_def [symmetric] nat_add_distrib)
        with r(9) show ?thesis by blast
      qed
    qed
    show ?thesis
      using unf r(1,3,5,6,7,8) a1 a2 a3 by (simp add: n_def)
  qed
qed

lemma scaleInAssign_spec:
  assumes "0 \<le> j" and "j \<le> int (length subsets)"
    and "int (length subsets) < 2 ^ 31"
    and "0 \<le> reminder" and "reminder \<le> int (length subsets)"
    and "leftSubsetsCount = max (int (length subsets) - j) reminder"
    and "0 < reminder \<longrightarrow> is_int32 (average + 1)"
  shows "\<exists>subsets'. scaleInAssign subsets (int (length subsets)) j average reminder
                        leftSubsetsCount = Some subsets'
          \<and> length subsets' = length subsets
          \<and> map SubsetName subsets' = map SubsetName subsets
          \<and> (\<forall>k < nat j. subsets' ! k = subsets ! k)
          \<and> (\<forall>k. nat j \<le> k \<and> k < length subsets \<longrightarrow>
                Replicas (subsets' ! k)
                  = average + (if int (length subsets) - int k \<le> reminder then 1 else 0))
          \<and> sum_list (map Replicas subsets')
              = sum_list (map Replicas (take (nat j) subsets))
                + (int (length subsets) - j) * average
                + min (int (length subsets) - j) reminder"
  using assms
proof (induction "nat (int (length subsets) - j)" arbitrary: j subsets leftSubsetsCount)
  case 0
  then have stop: "\<not> j < int (length subsets)" by simp
  then have "scaleInAssign subsets (int (length subsets)) j average reminder leftSubsetsCount
             = Some subsets"
    by (simp add: scaleInAssign.simps [of subsets _ j])
  moreover from stop "0.prems" have "j = int (length subsets)" by simp
  ultimately show ?case
    using "0.prems" by simp
next
  case (Suc m)
  define n where "n = int (length subsets)"
  have jN: "j < n" using Suc.hyps(2) by (simp add: n_def)
  have j0: "0 \<le> j" by (rule Suc.prems(1))
  have natj: "nat j < length subsets" using jN j0 by (simp add: n_def)
  define x where "x = subsets ! nat j"
  define d where "d = (if n - j \<le> reminder then 1 else 0 :: int)"
  define left1 where "left1 = (if n - j \<le> reminder then leftSubsetsCount
                               else leftSubsetsCount - 1)"
  define subsets1 where "subsets1 = subsets[nat j := x\<lparr>Replicas := average + d\<rparr>]"
  have left: "leftSubsetsCount = max (n - j) reminder"
    using Suc.prems(6) by (simp add: n_def)
  have cond: "(leftSubsetsCount \<le> reminder) = (n - j \<le> reminder)"
    using left by auto
  have gt: "Get subsets j = Some x"
    using j0 jN by (simp add: Get_in_range x_def n_def)
  have rem_pos: "n - j \<le> reminder \<Longrightarrow> 0 < reminder" using jN by simp
  have left_rng: "\<not> n - j \<le> reminder \<Longrightarrow> i32 (leftSubsetsCount - 1) = leftSubsetsCount - 1"
    using left Suc.prems(3,4) j0 jN by (simp add: i32_id is_int32_def n_def)
  have unf: "scaleInAssign subsets n j average reminder leftSubsetsCount
             = scaleInAssign subsets1 n (j + 1) average reminder left1"
    using jN Suc.prems(7) rem_pos left_rng
    by (simp add: scaleInAssign.simps [of subsets n j] gt cond subsets1_def d_def left1_def
        i32_id)
  have len1: "length subsets1 = length subsets" by (simp add: subsets1_def)
  have q0: "m = nat (int (length subsets1) - (j + 1))"
    using Suc.hyps(2) by (simp add: len1)
  have q1: "0 \<le> j + 1" using j0 by simp
  have q2: "j + 1 \<le> int (length subsets1)" using jN by (simp add: len1 n_def)
  have q3: "int (length subsets1) < 2 ^ 31" using Suc.prems(3) by (simp add: len1)
  have q5: "reminder \<le> int (length subsets1)" using Suc.prems(5) by (simp add: len1)
  have q6: "left1 = max (int (length subsets1) - (j + 1)) reminder"
    using left by (auto simp: left1_def len1 n_def)
  from Suc.hyps(1) [OF q0 q1 q2 q3 Suc.prems(4) q5 q6 Suc.prems(7)] obtain subsets' where
    r: "scaleInAssign subsets1 (int (length subsets1)) (j + 1) average reminder left1
          = Some subsets'"
       "length subsets' = length subsets1"
       "map SubsetName subsets' = map SubsetName subsets1"
       "\<forall>k < nat (j + 1). subsets' ! k = subsets1 ! k"
       "\<forall>k. nat (j + 1) \<le> k \<and> k < length subsets1 \<longrightarrow>
            Replicas (subsets' ! k)
              = average + (if int (length subsets1) - int k \<le> reminder then 1 else 0)"
       "sum_list (map Replicas subsets')
          = sum_list (map Replicas (take (nat (j + 1)) subsets1))
            + (int (length subsets1) - (j + 1)) * average
            + min (int (length subsets1) - (j + 1)) reminder"
    by blast
  have nat_j1: "nat (j + 1) = Suc (nat j)" using j0 by simp
  have c1: "length subsets' = length subsets" using r(2) len1 by simp
  have c2: "map SubsetName subsets' = map SubsetName subsets"
    using r(3) natj by (simp add: subsets1_def x_def map_SubsetName_update)
  have c3: "\<forall>k < nat j. subsets' ! k = subsets ! k"
  proof (intro allI impI)
    fix k assume k: "k < nat j"
    then have "k < nat (j + 1)" using nat_j1 by simp
    with r(4) have "subsets' ! k = subsets1 ! k" by blast
    also have "\<dots> = subsets ! k" using k by (simp add: subsets1_def)
    finally show "subsets' ! k = subsets ! k" .
  qed
  have c4: "\<forall>k. nat j \<le> k \<and> k < length subsets \<longrightarrow>
                Replicas (subsets' ! k)
                  = average + (if int (length subsets) - int k \<le> reminder then 1 else 0)"
  proof (intro allI impI)
    fix k assume k: "nat j \<le> k \<and> k < length subsets"
    show "Replicas (subsets' ! k)
            = average + (if int (length subsets) - int k \<le> reminder then 1 else 0)"
    proof (cases "k = nat j")
      case True
      then have "k < nat (j + 1)" using nat_j1 by simp
      with r(4) have "subsets' ! k = subsets1 ! k" by blast
      then show ?thesis using True natj j0 by (simp add: subsets1_def d_def n_def)
    next
      case False
      with k have "nat (j + 1) \<le> k \<and> k < length subsets1" using nat_j1 len1 by simp
      with r(5) show ?thesis using len1 by simp
    qed
  qed
  have s1: "take (nat (j + 1)) subsets1 = take (nat j) subsets @ [x\<lparr>Replicas := average + d\<rparr>]"
    using natj by (simp add: nat_j1 subsets1_def take_Suc_conv_app_nth)
  have s2: "min (n - j) reminder = min (n - (j + 1)) reminder + d"
    by (auto simp: d_def)
  have c5: "sum_list (map Replicas subsets')
              = sum_list (map Replicas (take (nat j) subsets))
                + (int (length subsets) - j) * average
                + min (int (length subsets) - j) reminder"
    using r(6) s1 s2 by (simp add: len1 n_def [symmetric] algebra_simps)
  show ?case using unf r(1) c1 c2 c3 c4 c5 by (simp add: n_def len1)
qed

lemma sum_Replicas_nonneg:
  "\<forall>x\<in>set subsets. 0 \<le> Replicas x \<Longrightarrow> 0 \<le> sum_list (map Replicas subsets)"
  by (rule sum_list_nonneg) auto

lemma incremental_scale_out:
  assumes nonneg: "\<forall>x\<in>set subsets. 0 \<le> Replicas x"
    and len: "int (length subsets) < 2 ^ 31"
    and ne: "subsets \<noteq> []"
    and Tr: "is_int32 T"
    and grow: "sum_list (map Replicas subsets) < T"
  shows "\<exists>st subsets'.
           scaleOutExclude subsets (initState (Len subsets - 1) T) = Some st
         \<and> 0 \<le> st_i st \<and> st_i st < Len subsets
         \<and> incrementalAllocate subsets T = Some (subsets', toSubsetReplicaMap subsets')
         \<and> length subsets' = length subsets
         \<and> map SubsetName subsets' = map SubsetName subsets
         \<and> sum_list (map Replicas subsets') = T
         \<and> (\<forall>k < length subsets. 0 \<le> Replicas (subsets' ! k))"
proof -
  define cur where "cur = sum_list (map Replicas subsets)"
  define D where "D = T - cur"
  define n where "n = int (length subsets)"
  define st0 where "st0 = initState (n - 1) T"
  have cur0: "0 \<le> cur" unfolding cur_def using nonneg by (rule sum_Replicas_nonneg)
  have D0: "0 < D" using grow by (simp add: D_def cur_def)
  have n1: "1 \<le> n" using ne by (cases subsets) (simp_all add: n_def)
  have curr: "is_int32 cur" using cur0 grow Tr by (simp add: is_int32_def cur_def)
  have diff: "i32 (T - currentReplicas subsets) = D"
    using curr Tr cur0 grow
    by (simp add: currentReplicas_eq cur_def [symmetric] i32_id D_def is_int32_def)
  have a1: "- 1 \<le> st_i st0" using n1 by (simp add: st0_def initState_def)
  have a2: "st_i st0 < int (length subsets)" by (simp add: st0_def initState_def n_def)
  have a3: "st_expectedReplicas st0
              = D + sum_list (map Replicas (take (nat (st_i st0 + 1)) subsets))"
    by (simp add: st0_def initState_def n_def D_def cur_def)
  have a4: "is_int32 (st_expectedReplicas st0)" using Tr by (simp add: st0_def initState_def)
  from scaleOutExclude_spec [OF nonneg len D0 a1 a2 a3 a4] obtain st where
    r: "scaleOutExclude subsets st0 = Some st"
       "st_i st \<le> st_i st0" "0 \<le> st_i st0 \<longrightarrow> 0 \<le> st_i st"
       "st_expectedReplicas st
          = D + sum_list (map Replicas (take (nat (st_i st + 1)) subsets))"
       "is_int32 (st_expectedReplicas st)"
       "0 \<le> st_i st \<longrightarrow>
          st_average st = st_expectedReplicas st div (st_i st + 1)
        \<and> st_reminder st = st_expectedReplicas st mod (st_i st + 1)"
    by blast
  define i where "i = st_i st"
  define E where "E = st_expectedReplicas st"
  have i0: "0 \<le> i" using r(3) n1 by (simp add: st0_def initState_def i_def)
  have iN: "i < n" using r(2) by (simp add: st0_def initState_def i_def)
  have avg: "st_average st = E div (i + 1)" and rm: "st_reminder st = E mod (i + 1)"
    using r(6) i0 by (simp_all add: i_def E_def)
  have E0: "0 \<le> E"
    using r(4) D0 sum_take_nonneg [of subsets Replicas, OF nonneg] by (simp add: E_def)
  have Er: "is_int32 E" using r(5) by (simp add: E_def)
  have q0: "0 \<le> E div (i + 1)" using E0 i0 by (simp add: pos_imp_zdiv_nonneg_iff)
  have b1: "- 1 \<le> i" using i0 by simp
  have b2: "i < int (length subsets)" using iN by (simp add: n_def)
  have b3: "0 \<le> E mod (i + 1)" using i0 by simp
  have b4: "E mod (i + 1) \<le> i + 1" using i0 pos_mod_bound [of "i + 1" E] by simp
  have b5: "is_int32 (E mod (i + 1))"
    using b3 b4 iN len by (simp add: is_int32_def n_def)
  have b6: "0 < E mod (i + 1) \<longrightarrow> is_int32 (E div (i + 1) + 1)"
  proof
    assume "0 < E mod (i + 1)"
    then have "E div (i + 1) + 1 \<le> E" using E0 i0 by (simp add: div_plus1_le)
    then show "is_int32 (E div (i + 1) + 1)" using q0 Er by (simp add: is_int32_def)
  qed
  from scaleOutAssign_spec [OF b1 b2 b3 b4 b5 b6] obtain subsets' where
    s: "scaleOutAssign subsets i (E div (i + 1)) (E mod (i + 1)) = Some subsets'"
       "length subsets' = length subsets"
       "map SubsetName subsets' = map SubsetName subsets"
       "\<forall>k. nat (i + 1) \<le> k \<and> k < length subsets \<longrightarrow> subsets' ! k = subsets ! k"
       "\<forall>k < nat (i + 1).
          Replicas (subsets' ! k)
            = E div (i + 1) + (if i - int k < E mod (i + 1) then 1 else 0)"
       "sum_list (map Replicas subsets')
          = sum_list (map Replicas subsets)
            - sum_list (map Replicas (take (nat (i + 1)) subsets))
            + (i + 1) * (E div (i + 1)) + E mod (i + 1)"
    by blast
  have run: "incrementalAllocate subsets T = Some (subsets', toSubsetReplicaMap subsets')"
    using D0 r(1) s(1)
    by (simp add: incrementalAllocate_def diff Len_def n_def [symmetric] st0_def [symmetric]
        Let_def i_def [symmetric] avg rm)
  have total: "sum_list (map Replicas subsets') = T"
  proof -
    have "(i + 1) * (E div (i + 1)) + E mod (i + 1) = E" by simp
    with s(6) have "sum_list (map Replicas subsets')
        = cur - sum_list (map Replicas (take (nat (i + 1)) subsets)) + E"
      by (simp add: cur_def)
    with r(4) show ?thesis by (simp add: E_def i_def D_def)
  qed
  have pos: "\<forall>k < length subsets. 0 \<le> Replicas (subsets' ! k)"
  proof (intro allI impI)
    fix k assume k: "k < length subsets"
    show "0 \<le> Replicas (subsets' ! k)"
    proof (cases "k < nat (i + 1)")
      case True
      with s(5) have "Replicas (subsets' ! k)
            = E div (i + 1) + (if i - int k < E mod (i + 1) then 1 else 0)" by blast
      with q0 show ?thesis by simp
    next
      case False
      with k s(4) have "subsets' ! k = subsets ! k" by simp
      with nonneg k show ?thesis by simp
    qed
  qed
  show ?thesis
    using r(1) i0 iN run s(2,3) total pos
    by (simp add: Len_def n_def st0_def i_def)
qed


lemma incremental_scale_in:
  assumes nonneg: "\<forall>x\<in>set subsets. 0 \<le> Replicas x"
    and len: "int (length subsets) < 2 ^ 31"
    and T0: "0 \<le> T"
    and shrink: "T < sum_list (map Replicas subsets)"
    and curr: "is_int32 (sum_list (map Replicas subsets))"
  shows "\<exists>st subsets'.
           scaleInExclude subsets (Len subsets) (initState 0 T) = Some st
         \<and> 0 \<le> st_i st \<and> st_i st < Len subsets
         \<and> incrementalAllocate subsets T = Some (subsets', toSubsetReplicaMap subsets')
         \<and> length subsets' = length subsets
         \<and> map SubsetName subsets' = map SubsetName subsets
         \<and> sum_list (map Replicas subsets') = T
         \<and> (\<forall>k < length subsets. 0 \<le> Replicas (subsets' ! k))
         \<and> (\<forall>k < nat (st_i st).
               Replicas (subsets ! k)
                 < remainingPool subsets T k div (int (length subsets) - int k)
             \<and> subsets' ! k = subsets ! k)
         \<and> remainingPool subsets T (nat (st_i st)) div (int (length subsets) - st_i st)
               \<le> Replicas (subsets ! nat (st_i st))
         \<and> (\<forall>k. nat (st_i st) \<le> k \<and> k < length subsets \<longrightarrow>
               Replicas (subsets' ! k)
                 = remainingPool subsets T (nat (st_i st)) div (int (length subsets) - st_i st)
                   + (if int (length subsets) - int k
                           \<le> remainingPool subsets T (nat (st_i st))
                               mod (int (length subsets) - st_i st)
                      then 1 else 0))"
proof -
  define cur where "cur = sum_list (map Replicas subsets)"
  define n where "n = int (length subsets)"
  define st0 where "st0 = initState 0 T"
  have Tr: "is_int32 T" using T0 shrink curr by (simp add: is_int32_def)
  have diff: "i32 (T - currentReplicas subsets) = T - cur"
    using curr Tr T0 shrink
    by (simp add: currentReplicas_eq cur_def [symmetric] i32_id is_int32_def)
  have neg: "T - cur < 0" using shrink by (simp add: cur_def)
  have a1: "0 \<le> st_i st0" by (simp add: st0_def initState_def)
  have a2: "st_i st0 \<le> int (length subsets)" by (simp add: st0_def initState_def)
  have a3: "st_expectedReplicas st0
              = T - sum_list (map Replicas (take (nat (st_i st0)) subsets))"
    by (simp add: st0_def initState_def)
  have a4: "0 \<le> st_expectedReplicas st0" using T0 by (simp add: st0_def initState_def)
  have a5: "is_int32 (st_expectedReplicas st0)" using Tr by (simp add: st0_def initState_def)
  have ne: "0 < n"
  proof (rule ccontr)
    assume "\<not> 0 < n"
    then have "subsets = []" by (simp add: n_def)
    with shrink T0 show False by simp
  qed
  from scaleInExclude_spec [OF nonneg len shrink a1 a2 a3 a4 a5] obtain st where
    r: "scaleInExclude subsets (int (length subsets)) st0 = Some st"
       "st_i st0 \<le> st_i st" "st_i st \<le> int (length subsets)"
       "st_i st0 < int (length subsets) \<longrightarrow> st_i st < int (length subsets)"
       "st_expectedReplicas st
          = T - sum_list (map Replicas (take (nat (st_i st)) subsets))"
       "0 \<le> st_expectedReplicas st" "is_int32 (st_expectedReplicas st)"
       "st_i st < int (length subsets) \<longrightarrow>
          st_leftSubsetsCount st = int (length subsets) - st_i st
        \<and> st_average st = st_expectedReplicas st div (int (length subsets) - st_i st)
        \<and> st_reminder st = st_expectedReplicas st mod (int (length subsets) - st_i st)
        \<and> st_average st \<le> Replicas (subsets ! nat (st_i st))"
       "\<forall>k. nat (st_i st0) \<le> k \<and> k < nat (st_i st) \<longrightarrow>
          Replicas (subsets ! k)
            < (T - sum_list (map Replicas (take k subsets))) div (int (length subsets) - int k)"
    by blast
  define i where "i = st_i st"
  define E where "E = st_expectedReplicas st"
  define c where "c = n - i"
  have i0: "0 \<le> i" using r(2) by (simp add: st0_def initState_def i_def)
  have iN: "i < n" using r(4) ne by (simp add: st0_def initState_def i_def n_def)
  have c_pos: "0 < c" using iN by (simp add: c_def)
  have lf: "st_leftSubsetsCount st = c" and avg: "st_average st = E div c"
    and rm: "st_reminder st = E mod c" and stop: "E div c \<le> Replicas (subsets ! nat i)"
    using r(8) iN by (simp_all add: i_def E_def c_def n_def)
  have E_pool: "E = remainingPool subsets T (nat i)"
    using r(5) by (simp add: E_def remainingPool_def i_def)
  have E0: "0 \<le> E" using r(6) by (simp add: E_def)
  have Er: "is_int32 E" using r(7) by (simp add: E_def)
  have q0: "0 \<le> E div c" using E0 c_pos by (simp add: pos_imp_zdiv_nonneg_iff)
  have m0: "0 \<le> E mod c" using c_pos by simp
  have m1: "E mod c < c" using c_pos by simp
  have b2: "i \<le> int (length subsets)" using iN by (simp add: n_def)
  have b5: "E mod c \<le> int (length subsets)" using m1 i0 by (simp add: c_def n_def)
  have b6: "c = max (int (length subsets) - i) (E mod c)"
    using m1 by (simp add: c_def n_def)
  have b7: "0 < E mod c \<longrightarrow> is_int32 (E div c + 1)"
  proof
    assume "0 < E mod c"
    then have "E div c + 1 \<le> E" using E0 c_pos by (simp add: div_plus1_le)
    then show "is_int32 (E div c + 1)" using q0 Er by (simp add: is_int32_def)
  qed
  from scaleInAssign_spec [OF i0 b2 len m0 b5 b6 b7] obtain subsets' where
    s: "scaleInAssign subsets (int (length subsets)) i (E div c) (E mod c) c = Some subsets'"
       "length subsets' = length subsets"
       "map SubsetName subsets' = map SubsetName subsets"
       "\<forall>k < nat i. subsets' ! k = subsets ! k"
       "\<forall>k. nat i \<le> k \<and> k < length subsets \<longrightarrow>
          Replicas (subsets' ! k)
            = E div c + (if int (length subsets) - int k \<le> E mod c then 1 else 0)"
       "sum_list (map Replicas subsets')
          = sum_list (map Replicas (take (nat i) subsets))
            + (int (length subsets) - i) * (E div c)
            + min (int (length subsets) - i) (E mod c)"
    by blast
  have run: "incrementalAllocate subsets T = Some (subsets', toSubsetReplicaMap subsets')"
    using neg r(1) s(1)
    by (simp add: incrementalAllocate_def diff Len_def st0_def [symmetric]
        Let_def i_def [symmetric] avg rm lf)
  have total: "sum_list (map Replicas subsets') = T"
  proof -
    have "c * (E div c) + E mod c = E" by simp
    moreover have "min (int (length subsets) - i) (E mod c) = E mod c"
      using m1 by (simp add: c_def n_def)
    ultimately have "sum_list (map Replicas subsets')
        = sum_list (map Replicas (take (nat i) subsets)) + E"
      using s(6) by (simp add: c_def n_def)
    with r(5) show ?thesis by (simp add: E_def i_def)
  qed
  have pos: "\<forall>k < length subsets. 0 \<le> Replicas (subsets' ! k)"
  proof (intro allI impI)
    fix k assume k: "k < length subsets"
    show "0 \<le> Replicas (subsets' ! k)"
    proof (cases "k < nat i")
      case True
      with s(4) have "subsets' ! k = subsets ! k" by blast
      with nonneg k show ?thesis by simp
    next
      case False
      with k s(5) have "Replicas (subsets' ! k)
            = E div c + (if int (length subsets) - int k \<le> E mod c then 1 else 0)" by simp
      with q0 show ?thesis by simp
    qed
  qed
  have excl: "\<forall>k < nat i.
               Replicas (subsets ! k)
                 < remainingPool subsets T k div (int (length subsets) - int k)
             \<and> subsets' ! k = subsets ! k"
    using r(9) s(4) by (simp add: st0_def initState_def remainingPool_def i_def)
  show ?thesis
    using r(1) i0 iN run s(2,3) total pos excl stop s(5)
    by (simp add: Len_def n_def st0_def i_def [symmetric] E_pool [symmetric] c_def)
qed

lemma unpinnedCount_snoc:
  "unpinnedCount (xs @ [x]) = unpinnedCount xs + (if Specified x then 0 else 1)"
  by (simp add: unpinnedCount_def)

lemma unpinnedSum_snoc:
  "unpinnedSum (xs @ [x]) = unpinnedSum xs + (if Specified x then 0 else Replicas x)"
  by (simp add: unpinnedSum_def)

lemma unpinnedCount_zero: "unpinnedCount xs = 0 \<Longrightarrow> x \<in> set xs \<Longrightarrow> Specified x"
  by (auto simp: unpinnedCount_def filter_empty_conv)

lemma unpinnedSum_zero: "unpinnedCount xs = 0 \<Longrightarrow> unpinnedSum xs = 0"
  by (simp add: unpinnedCount_def unpinnedSum_def)

lemma normalLoop_frame:
  assumes "i < int (length subsets)"
  shows "\<exists>subsets'. normalLoop subsets i average remainder leftSubsetCount = Some subsets'
          \<and> length subsets' = length subsets
          \<and> map SubsetName subsets' = map SubsetName subsets
          \<and> map Specified subsets' = map Specified subsets
          \<and> (\<forall>k < length subsets. Specified (subsets ! k) \<or> i < int k
                \<longrightarrow> subsets' ! k = subsets ! k)"
  using assms
proof (induction "nat (i + 1)" arbitrary: i subsets remainder leftSubsetCount)
  case 0
  then have "\<not> 0 \<le> i" by simp
  then have "normalLoop subsets i average remainder leftSubsetCount = Some subsets"
    by (simp add: normalLoop.simps [of subsets i])
  then show ?case by simp
next
  case (Suc m)
  have i0: "0 \<le> i" using Suc.hyps(2) by simp
  have iN: "nat i < length subsets" using Suc.prems i0 by simp
  define x where "x = subsets ! nat i"
  have gt: "Get subsets i = Some x"
    using i0 Suc.prems by (simp add: Get_in_range x_def)
  have m: "m = nat (i - 1 + 1)" using Suc.hyps(2) by simp
  show ?case
  proof (cases "Specified x")
    case True
    have unf: "normalLoop subsets i average remainder leftSubsetCount
               = normalLoop subsets (i - 1) average remainder leftSubsetCount"
      using i0 True by (simp add: normalLoop.simps [of subsets i] gt)
    have p: "i - 1 < int (length subsets)" using Suc.prems by simp
    from Suc.hyps(1) [OF m p, of remainder leftSubsetCount] obtain subsets' where
      r: "normalLoop subsets (i - 1) average remainder leftSubsetCount = Some subsets'"
         "length subsets' = length subsets"
         "map SubsetName subsets' = map SubsetName subsets"
         "map Specified subsets' = map Specified subsets"
         "\<forall>k < length subsets. Specified (subsets ! k) \<or> i - 1 < int k
                \<longrightarrow> subsets' ! k = subsets ! k"
      by blast
    have "\<forall>k < length subsets. Specified (subsets ! k) \<or> i < int k
                \<longrightarrow> subsets' ! k = subsets ! k"
      using r(5) by auto
    then show ?thesis using unf r(1-4) by simp
  next
    case False
    define v where "v = (if 0 < remainder then i32 (average + 1) else i32 average)"
    define subsets1 where "subsets1 = subsets[nat i := x\<lparr>Replicas := v\<rparr>]"
    define rem1 where "rem1 = (if 0 < remainder then remainder - 1 else remainder)"
    have len1: "length subsets1 = length subsets" by (simp add: subsets1_def)
    have nm1: "map SubsetName subsets1 = map SubsetName subsets"
      using iN by (simp add: subsets1_def x_def map_SubsetName_update)
    have sp1: "map Specified subsets1 = map Specified subsets"
      using iN by (simp add: subsets1_def x_def map_Specified_update)
    have fr1: "\<forall>k < length subsets. Specified (subsets ! k) \<or> i < int k
                \<longrightarrow> subsets1 ! k = subsets ! k"
    proof (intro allI impI)
      fix k assume "k < length subsets" and h: "Specified (subsets ! k) \<or> i < int k"
      have "k \<noteq> nat i" using h False i0 by (auto simp: x_def)
      then show "subsets1 ! k = subsets ! k" by (simp add: subsets1_def)
    qed
    have unf: "normalLoop subsets i average remainder leftSubsetCount
               = (if leftSubsetCount - 1 = 0 then Some subsets1
                  else normalLoop subsets1 (i - 1) average rem1 (leftSubsetCount - 1))"
      using i0 False
      by (simp add: normalLoop.simps [of subsets i] gt subsets1_def v_def rem1_def Let_def)
    show ?thesis
    proof (cases "leftSubsetCount - 1 = 0")
      case True
      then show ?thesis using unf len1 nm1 sp1 fr1 by simp
    next
      case nz: False
      have p: "i - 1 < int (length subsets1)" using Suc.prems by (simp add: len1)
      from Suc.hyps(1) [OF m p, of rem1 "leftSubsetCount - 1"] obtain subsets' where
        r: "normalLoop subsets1 (i - 1) average rem1 (leftSubsetCount - 1) = Some subsets'"
           "length subsets' = length subsets1"
           "map SubsetName subsets' = map SubsetName subsets1"
           "map Specified subsets' = map Specified subsets1"
           "\<forall>k < length subsets1. Specified (subsets1 ! k) \<or> i - 1 < int k
                  \<longrightarrow> subsets' ! k = subsets1 ! k"
        by blast
      have "\<forall>k < length subsets. Specified (subsets ! k) \<or> i < int k
                  \<longrightarrow> subsets' ! k = subsets ! k"
      proof (intro allI impI)
        fix k assume k: "k < length subsets" and h: "Specified (subsets ! k) \<or> i < int k"
        from fr1 k h have e: "subsets1 ! k = subsets ! k" by blast
        with h have "Specified (subsets1 ! k) \<or> i - 1 < int k" by auto
        moreover have "k < length subsets1" using k len1 by simp
        ultimately have "subsets' ! k = subsets1 ! k" using r(5) by blast
        with e show "subsets' ! k = subsets ! k" by simp
      qed
      then show ?thesis using unf nz r(1-4) len1 nm1 sp1 by simp
    qed
  qed
qed


lemma normalLoop_spec:
  assumes "- 1 \<le> i" and "i < int (length subsets)"
    and "leftSubsetCount = int (unpinnedCount (take (nat (i + 1)) subsets))"
    and "0 \<le> remainder" and "remainder \<le> leftSubsetCount"
    and "is_int32 average" and "0 < remainder \<longrightarrow> is_int32 (average + 1)"
  shows "\<exists>subsets'. normalLoop subsets i average remainder leftSubsetCount = Some subsets'
          \<and> (\<forall>k < nat (i + 1). \<not> Specified (subsets ! k) \<longrightarrow>
                Replicas (subsets' ! k)
                  = average
                    + (if int (unpinnedCount (drop (Suc k) (take (nat (i + 1)) subsets)))
                            < remainder
                       then 1 else 0))
          \<and> sum_list (map Replicas subsets')
              = sum_list (map Replicas subsets) - unpinnedSum (take (nat (i + 1)) subsets)
                + leftSubsetCount * average + remainder"
  using assms
proof (induction "nat (i + 1)" arbitrary: i subsets remainder leftSubsetCount)
  case 0
  then have stop: "\<not> 0 \<le> i" by simp
  then have "normalLoop subsets i average remainder leftSubsetCount = Some subsets"
    by (simp add: normalLoop.simps [of subsets i])
  moreover from 0 have "nat (i + 1) = 0" by simp
  ultimately show ?case
    using "0.prems"(3,4,5) by (simp add: unpinnedCount_def unpinnedSum_def)
next
  case (Suc m)
  have i0: "0 \<le> i" using Suc.hyps(2) by simp
  have iN: "nat i < length subsets" using Suc.prems(2) i0 by simp
  have nat_i: "nat (i + 1) = Suc (nat i)" using i0 by simp
  define x where "x = subsets ! nat i"
  define pre where "pre = take (nat i) subsets"
  have tk: "take (nat (i + 1)) subsets = pre @ [x]"
    using iN by (simp add: nat_i take_Suc_conv_app_nth x_def pre_def)
  have len_pre: "length pre = nat i" using iN by (simp add: pre_def)
  have gt: "Get subsets i = Some x"
    using i0 Suc.prems(2) by (simp add: Get_in_range x_def)
  have m: "m = nat (i - 1 + 1)" using Suc.hyps(2) by simp
  have lo: "- 1 \<le> i - 1" using i0 by simp
  have drop_pre: "\<And>k. k < nat i \<Longrightarrow> drop (Suc k) (pre @ [x]) = drop (Suc k) pre @ [x]"
    by (simp add: len_pre)
  have drop_last: "drop (Suc (nat i)) (take (nat (i + 1)) subsets) = []"
    by (simp add: tk len_pre)
  show ?case
  proof (cases "Specified x")
    case True
    have unf: "normalLoop subsets i average remainder leftSubsetCount
               = normalLoop subsets (i - 1) average remainder leftSubsetCount"
      using i0 True by (simp add: normalLoop.simps [of subsets i] gt)
    have p2: "i - 1 < int (length subsets)" using Suc.prems(2) by simp
    have p3: "leftSubsetCount = int (unpinnedCount (take (nat (i - 1 + 1)) subsets))"
      using Suc.prems(3) True by (simp add: tk unpinnedCount_snoc pre_def)
    from Suc.hyps(1) [OF m lo p2 p3 Suc.prems(4,5,6,7)] obtain subsets' where
      r: "normalLoop subsets (i - 1) average remainder leftSubsetCount = Some subsets'"
         "\<forall>k < nat (i - 1 + 1). \<not> Specified (subsets ! k) \<longrightarrow>
              Replicas (subsets' ! k)
                = average
                  + (if int (unpinnedCount (drop (Suc k) (take (nat (i - 1 + 1)) subsets)))
                          < remainder
                     then 1 else 0)"
         "sum_list (map Replicas subsets')
            = sum_list (map Replicas subsets) - unpinnedSum (take (nat (i - 1 + 1)) subsets)
              + leftSubsetCount * average + remainder"
      by blast
    have c1: "\<forall>k < nat (i + 1). \<not> Specified (subsets ! k) \<longrightarrow>
                Replicas (subsets' ! k)
                  = average
                    + (if int (unpinnedCount (drop (Suc k) (take (nat (i + 1)) subsets)))
                            < remainder
                       then 1 else 0)"
    proof (intro allI impI)
      fix k assume k: "k < nat (i + 1)" and u: "\<not> Specified (subsets ! k)"
      from u True have "k \<noteq> nat i" by (auto simp: x_def)
      with k nat_i have kl: "k < nat i" by simp
      then have "k < nat (i - 1 + 1)" by simp
      with r(2) u have "Replicas (subsets' ! k)
                = average
                  + (if int (unpinnedCount (drop (Suc k) (take (nat (i - 1 + 1)) subsets)))
                          < remainder
                     then 1 else 0)" by blast
      show "Replicas (subsets' ! k)
                  = average
                    + (if int (unpinnedCount (drop (Suc k) (take (nat (i + 1)) subsets)))
                            < remainder
                       then 1 else 0)"
      proof -
        have e1: "drop (Suc k) (take (nat (i + 1)) subsets) = drop (Suc k) pre @ [x]"
          by (simp only: tk drop_pre [OF kl])
        have e2: "take (nat (i - 1 + 1)) subsets = pre" by (simp add: pre_def)
        show ?thesis
          using \<open>Replicas (subsets' ! k)
                = average
                  + (if int (unpinnedCount (drop (Suc k) (take (nat (i - 1 + 1)) subsets)))
                          < remainder
                     then 1 else 0)\<close> True
          by (simp only: e1 e2 unpinnedCount_snoc) simp
      qed
    qed
    have c2: "sum_list (map Replicas subsets')
              = sum_list (map Replicas subsets) - unpinnedSum (take (nat (i + 1)) subsets)
                + leftSubsetCount * average + remainder"
      using r(3) True by (simp add: tk unpinnedSum_snoc pre_def)
    show ?thesis using unf r(1) c1 c2 by simp
  next
    case False
    define d where "d = (if 0 < remainder then 1 else 0 :: int)"
    define subsets1 where "subsets1 = subsets[nat i := x\<lparr>Replicas := average + d\<rparr>]"
    define rem1 where "rem1 = remainder - d"
    have v: "(if 0 < remainder then subsets[nat i := x\<lparr>Replicas := i32 (average + 1)\<rparr>]
              else subsets[nat i := x\<lparr>Replicas := i32 average\<rparr>]) = subsets1"
      using Suc.prems(6,7) by (simp add: subsets1_def d_def i32_id)
    have r1: "(if 0 < remainder then remainder - 1 else remainder) = rem1"
      by (simp add: rem1_def d_def)
    have unf: "normalLoop subsets i average remainder leftSubsetCount
               = (if leftSubsetCount - 1 = 0 then Some subsets1
                  else normalLoop subsets1 (i - 1) average rem1 (leftSubsetCount - 1))"
      using i0 False
      by (simp add: normalLoop.simps [of subsets i] gt v r1 Let_def)
    have left: "leftSubsetCount = int (unpinnedCount pre) + 1"
      using Suc.prems(3) False by (simp add: tk unpinnedCount_snoc)
    have len1: "length subsets1 = length subsets" by (simp add: subsets1_def)
    have at_i: "subsets1 ! nat i = x\<lparr>Replicas := average + d\<rparr>"
      using iN by (simp add: subsets1_def)
    have below: "\<And>k. k < nat i \<Longrightarrow> subsets1 ! k = subsets ! k"
      by (simp add: subsets1_def)
    have pre1: "take (nat i) subsets1 = pre" by (simp add: subsets1_def pre_def)
    have s1: "sum_list (map Replicas subsets1)
              = sum_list (map Replicas subsets) - Replicas x + (average + d)"
      using iN by (simp add: subsets1_def sum_list_map_update x_def)
    have us: "unpinnedSum (take (nat (i + 1)) subsets) = unpinnedSum pre + Replicas x"
      using False by (simp add: tk unpinnedSum_snoc)
    show ?thesis
    proof (cases "leftSubsetCount - 1 = 0")
      case True
      then have z: "unpinnedCount pre = 0" using left by simp
      have rd: "remainder = d"
        using Suc.prems(4,5) True by (simp add: d_def)
      have c1: "\<forall>k < nat (i + 1). \<not> Specified (subsets ! k) \<longrightarrow>
                Replicas (subsets1 ! k)
                  = average
                    + (if int (unpinnedCount (drop (Suc k) (take (nat (i + 1)) subsets)))
                            < remainder
                       then 1 else 0)"
      proof (intro allI impI)
        fix k assume k: "k < nat (i + 1)" and u: "\<not> Specified (subsets ! k)"
        have "k = nat i"
        proof (rule ccontr)
          assume "k \<noteq> nat i"
          with k nat_i have kl: "k < nat i" by simp
          then have "subsets ! k \<in> set pre"
            using iN by (auto simp: pre_def in_set_conv_nth intro!: exI [of _ k])
          with z have "Specified (subsets ! k)" by (rule unpinnedCount_zero)
          with u show False by simp
        qed
        then show "Replicas (subsets1 ! k)
                  = average
                    + (if int (unpinnedCount (drop (Suc k) (take (nat (i + 1)) subsets)))
                            < remainder
                       then 1 else 0)"
          by (simp add: at_i drop_last unpinnedCount_def d_def)
      qed
      have c2: "sum_list (map Replicas subsets1)
              = sum_list (map Replicas subsets) - unpinnedSum (take (nat (i + 1)) subsets)
                + leftSubsetCount * average + remainder"
        using s1 us z True rd by (simp add: unpinnedSum_zero)
      show ?thesis using unf True c1 c2 by simp
    next
      case nz: False
      have p2: "i - 1 < int (length subsets1)" using Suc.prems(2) by (simp add: len1)
      have p3: "leftSubsetCount - 1 = int (unpinnedCount (take (nat (i - 1 + 1)) subsets1))"
        using left by (simp add: pre1)
      have p4: "0 \<le> rem1" using Suc.prems(4) by (simp add: rem1_def d_def)
      have p5: "rem1 \<le> leftSubsetCount - 1"
        using Suc.prems(4,5) left by (simp add: rem1_def d_def)
      have p7: "0 < rem1 \<longrightarrow> is_int32 (average + 1)"
        using Suc.prems(7) by (simp add: rem1_def d_def split: if_splits)
      from Suc.hyps(1) [OF m lo p2 p3 p4 p5 Suc.prems(6) p7] obtain subsets' where
        r: "normalLoop subsets1 (i - 1) average rem1 (leftSubsetCount - 1) = Some subsets'"
           "\<forall>k < nat (i - 1 + 1). \<not> Specified (subsets1 ! k) \<longrightarrow>
                Replicas (subsets' ! k)
                  = average
                    + (if int (unpinnedCount (drop (Suc k) (take (nat (i - 1 + 1)) subsets1)))
                            < rem1
                       then 1 else 0)"
           "sum_list (map Replicas subsets')
              = sum_list (map Replicas subsets1) - unpinnedSum (take (nat (i - 1 + 1)) subsets1)
                + (leftSubsetCount - 1) * average + rem1"
        by blast
      from normalLoop_frame [OF p2, of average rem1 "leftSubsetCount - 1"] r(1)
      have fr: "\<forall>k < length subsets1. Specified (subsets1 ! k) \<or> i - 1 < int k
                  \<longrightarrow> subsets' ! k = subsets1 ! k"
        by simp
      have top: "subsets' ! nat i = subsets1 ! nat i"
      proof -
        have "nat i < length subsets1" using iN len1 by simp
        moreover have "i - 1 < int (nat i)" using i0 by simp
        ultimately show ?thesis using fr by blast
      qed
      have c1: "\<forall>k < nat (i + 1). \<not> Specified (subsets ! k) \<longrightarrow>
                Replicas (subsets' ! k)
                  = average
                    + (if int (unpinnedCount (drop (Suc k) (take (nat (i + 1)) subsets)))
                            < remainder
                       then 1 else 0)"
      proof (intro allI impI)
        fix k assume k: "k < nat (i + 1)" and u: "\<not> Specified (subsets ! k)"
        show "Replicas (subsets' ! k)
                  = average
                    + (if int (unpinnedCount (drop (Suc k) (take (nat (i + 1)) subsets)))
                            < remainder
                       then 1 else 0)"
        proof (cases "k = nat i")
          case True
          then show ?thesis
            by (simp add: top at_i drop_last unpinnedCount_def d_def)
        next
          case False
          with k nat_i have kl: "k < nat i" by simp
          then have "k < nat (i - 1 + 1)" by simp
          moreover have "\<not> Specified (subsets1 ! k)" using u below [OF kl] by simp
          ultimately have "Replicas (subsets' ! k)
                  = average
                    + (if int (unpinnedCount (drop (Suc k) (take (nat (i - 1 + 1)) subsets1)))
                            < rem1
                       then 1 else 0)"
            using r(2) by blast
          moreover have "(int (unpinnedCount (drop (Suc k) pre)) < rem1)
                         = (int (unpinnedCount (drop (Suc k) pre)) + 1 < remainder)"
            using Suc.prems(4) by (auto simp: rem1_def d_def)
          moreover
          have "drop (Suc k) (take (nat (i + 1)) subsets) = drop (Suc k) pre @ [x]"
            by (simp only: tk drop_pre [OF kl])
          moreover have "take (nat (i - 1 + 1)) subsets1 = pre" by (simp add: pre1)
          ultimately show ?thesis
            using \<open>\<not> Specified x\<close>
            by (simp add: unpinnedCount_snoc)
        qed
      qed
      have c2: "sum_list (map Replicas subsets')
              = sum_list (map Replicas subsets) - unpinnedSum (take (nat (i + 1)) subsets)
                + leftSubsetCount * average + remainder"
        using r(3) s1 us by (simp add: pre1 rem1_def algebra_simps)
      show ?thesis using unf nz r(1) c1 c2 by simp
    qed
  qed
qed

lemma applySpecified_eq:
  "applySpecified limits subsets (i32 a) c
   = (map (pin limits) subsets, i32 (a + specifiedSum limits subsets),
      c + int (specifiedCount limits subsets))"
proof (induction subsets arbitrary: a c)
  case Nil
  then show ?case by (simp add: specifiedSum_def specifiedCount_def)
next
  case (Cons nts subsets)
  show ?case
  proof (cases "map_of limits (SubsetName nts)")
    case None
    then show ?thesis
      using Cons.IH [of a c] by (simp add: pin_def specifiedSum_def specifiedCount_def)
  next
    case (Some replicas)
    then show ?thesis
      using Cons.IH [of "a + replicas" "c + 1"]
      by (simp add: pin_def specifiedSum_def specifiedCount_def i32_add_left add.assoc)
  qed
qed

lemma normalAllocate_unfold:
  "normalAllocate subsets T (Some limits)
   = (if int (length subsets) - int (specifiedCount limits subsets) \<noteq> 0 then
        (case normalLoop (map (pin limits) subsets) (int (length subsets) - 1)
                (i32 (T - i32 (specifiedSum limits subsets))
                   sdiv (int (length subsets) - int (specifiedCount limits subsets)))
                (i32 (T - i32 (specifiedSum limits subsets))
                   smod (int (length subsets) - int (specifiedCount limits subsets)))
                (int (length subsets) - int (specifiedCount limits subsets)) of
           None \<Rightarrow> None
         | Some subsets2 \<Rightarrow> Some (subsets2, toSubsetReplicaMap subsets2))
      else Some (map (pin limits) subsets, toSubsetReplicaMap (map (pin limits) subsets)))"
proof (cases "subsets = []")
  case True
  then show ?thesis
    by (simp add: normalAllocate_def specifiedCount_def Len_def)
next
  case False
  have "applySpecified limits subsets 0 0
        = (map (pin limits) subsets, i32 (specifiedSum limits subsets),
           int (specifiedCount limits subsets))"
    using applySpecified_eq [of limits subsets 0 0] by (simp add: i32_0)
  then show ?thesis
    using False by (simp add: normalAllocate_def Len_def Let_def)
qed

lemma pin_name: "SubsetName (pin limits nts) = SubsetName nts"
  by (simp add: pin_def split: option.splits)

lemma pin_Some:
  "map_of limits (SubsetName nts) = Some v \<Longrightarrow>
   pin limits nts = nts\<lparr>Replicas := v, Specified := True\<rparr>"
  by (simp add: pin_def)

lemma pin_None: "map_of limits (SubsetName nts) = None \<Longrightarrow> pin limits nts = nts"
  by (simp add: pin_def)

lemma normalAllocate_frame:
  "\<exists>subsets'. normalAllocate subsets T (Some limits) = Some (subsets', toSubsetReplicaMap subsets')
      \<and> length subsets' = length subsets
      \<and> map SubsetName subsets' = map SubsetName subsets
      \<and> (\<forall>k < length subsets. \<forall>v. map_of limits (SubsetName (subsets ! k)) = Some v
            \<longrightarrow> subsets' ! k = (subsets ! k)\<lparr>Replicas := v, Specified := True\<rparr>)"
proof (cases "int (length subsets) - int (specifiedCount limits subsets) \<noteq> 0")
  case False
  then show ?thesis
    by (simp add: normalAllocate_unfold comp_def pin_name pin_Some)
next
  case True
  define subsets1 where "subsets1 = map (pin limits) subsets"
  have p: "int (length subsets) - 1 < int (length subsets1)" by (simp add: subsets1_def)
  from normalLoop_frame [OF p] obtain subsets' where
    r: "normalLoop subsets1 (int (length subsets) - 1)
                (i32 (T - i32 (specifiedSum limits subsets))
                   sdiv (int (length subsets) - int (specifiedCount limits subsets)))
                (i32 (T - i32 (specifiedSum limits subsets))
                   smod (int (length subsets) - int (specifiedCount limits subsets)))
                (int (length subsets) - int (specifiedCount limits subsets)) = Some subsets'"
       "length subsets' = length subsets1"
       "map SubsetName subsets' = map SubsetName subsets1"
       "\<forall>k < length subsets1. Specified (subsets1 ! k) \<or> int (length subsets) - 1 < int k
                \<longrightarrow> subsets' ! k = subsets1 ! k"
    by blast
  have c1: "length subsets' = length subsets" using r(2) by (simp add: subsets1_def)
  have c2: "map SubsetName subsets' = map SubsetName subsets"
    using r(3) by (simp add: subsets1_def comp_def pin_name)
  have c3: "\<forall>k < length subsets. \<forall>v. map_of limits (SubsetName (subsets ! k)) = Some v
            \<longrightarrow> subsets' ! k = (subsets ! k)\<lparr>Replicas := v, Specified := True\<rparr>"
  proof (intro allI impI)
    fix k v assume k: "k < length subsets"
      and v: "map_of limits (SubsetName (subsets ! k)) = Some v"
    have e: "subsets1 ! k = pin limits (subsets ! k)" using k by (simp add: subsets1_def)
    have "k < length subsets1" using k by (simp add: subsets1_def)
    moreover have "Specified (subsets1 ! k)" using pin_Some [OF v] e by simp
    ultimately have "subsets' ! k = subsets1 ! k" using r(4) by blast
    then show "subsets' ! k = (subsets ! k)\<lparr>Replicas := v, Specified := True\<rparr>"
      using pin_Some [OF v] e by simp
  qed
  show ?thesis
    using True r(1) c1 c2 c3
    by (simp add: normalAllocate_unfold subsets1_def [symmetric])
qed

lemma pin_Specified:
  "\<not> Specified nts \<Longrightarrow> Specified (pin limits nts) = (map_of limits (SubsetName nts) \<noteq> None)"
  by (simp add: pin_def split: option.splits)

lemma unpinnedCount_pin:
  "\<forall>nts\<in>set xs. \<not> Specified nts \<Longrightarrow>
   unpinnedCount (map (pin limits) xs)
   = length (filter (\<lambda>nts. map_of limits (SubsetName nts) = None) xs)"
  by (induction xs) (simp_all add: unpinnedCount_def pin_Specified)

lemma count_split:
  "length (filter (\<lambda>nts. map_of limits (SubsetName nts) = None) xs)
     + specifiedCount limits xs = length xs"
  by (induction xs) (simp_all add: specifiedCount_def)

lemma sum_pin_split:
  "\<forall>nts\<in>set xs. \<not> Specified nts \<Longrightarrow>
   sum_list (map Replicas (map (pin limits) xs))
   = specifiedSum limits xs + unpinnedSum (map (pin limits) xs)"
proof (induction xs)
  case Nil
  then show ?case by (simp add: specifiedSum_def unpinnedSum_def)
next
  case (Cons a xs)
  then have IH: "sum_list (map Replicas (map (pin limits) xs))
                 = specifiedSum limits xs + unpinnedSum (map (pin limits) xs)"
    by simp
  from Cons.prems have fa: "\<not> Specified a" by simp
  show ?case
  proof (cases "map_of limits (SubsetName a)")
    case None
    then show ?thesis
      using IH fa by (simp add: specifiedSum_def unpinnedSum_def pin_None [OF None])
  next
    case (Some v)
    then show ?thesis
      using IH pin_Some [OF Some] by (simp add: specifiedSum_def unpinnedSum_def)
  qed
qed

lemma normalAllocate_spec:
  assumes fresh: "\<forall>nts\<in>set subsets. \<not> Specified nts"
    and Tr: "is_int32 T"
    and S0: "0 \<le> specifiedSum limits subsets"
    and ST: "specifiedSum limits subsets \<le> T"
    and free: "specifiedCount limits subsets < length subsets"
  shows "\<exists>subsets'. normalAllocate subsets T (Some limits) = Some (subsets', toSubsetReplicaMap subsets')
      \<and> (\<forall>k < length subsets. map_of limits (SubsetName (subsets ! k)) = None \<longrightarrow>
            Replicas (subsets' ! k)
              = (T - specifiedSum limits subsets)
                  div (int (length subsets) - int (specifiedCount limits subsets))
                + (if int (freeAbove limits subsets k)
                        < (T - specifiedSum limits subsets)
                            mod (int (length subsets) - int (specifiedCount limits subsets))
                   then 1 else 0))
      \<and> sum_list (map Replicas subsets') = T"
proof -
  define n where "n = int (length subsets)"
  define L where "L = n - int (specifiedCount limits subsets)"
  define Sg where "Sg = specifiedSum limits subsets"
  define A where "A = T - Sg"
  define subsets1 where "subsets1 = map (pin limits) subsets"
  have L_pos: "0 < L" using free by (simp add: L_def n_def)
  have T0: "0 \<le> T" using S0 ST by simp
  have Sr: "is_int32 Sg" using S0 ST Tr by (simp add: Sg_def is_int32_def)
  have A0: "0 \<le> A" using ST by (simp add: A_def Sg_def)
  have Ar: "is_int32 A" using A0 S0 Tr by (simp add: A_def Sg_def is_int32_def)
  have A_eq: "i32 (T - i32 Sg) = A" using Sr Ar by (simp add: i32_id A_def)
  have dv: "A sdiv L = A div L" using A0 L_pos by (rule sdiv_nonneg)
  have md: "A smod L = A mod L" using A0 L_pos by (rule smod_nonneg)
  have len1: "length subsets1 = length subsets" by (simp add: subsets1_def)
  have whole: "take (nat (n - 1 + 1)) subsets1 = subsets1" by (simp add: n_def len1)
  have L_count: "L = int (unpinnedCount subsets1)"
    using count_split [of limits subsets]
    by (simp add: L_def n_def subsets1_def unpinnedCount_pin [OF fresh])
  have a1: "- 1 \<le> n - 1" by (simp add: n_def)
  have a2: "n - 1 < int (length subsets1)" by (simp add: n_def len1)
  have a3: "L = int (unpinnedCount (take (nat (n - 1 + 1)) subsets1))"
    using L_count by (simp only: whole)
  have a4: "0 \<le> A mod L" using L_pos by simp
  have a5: "A mod L \<le> L" by (rule less_imp_le [OF pos_mod_bound [OF L_pos]])
  have a6: "is_int32 (A div L)" using A0 Ar L_pos by (rule div_in_range)
  have q0: "0 \<le> A div L" using A0 L_pos by (simp add: pos_imp_zdiv_nonneg_iff)
  have a7: "0 < A mod L \<longrightarrow> is_int32 (A div L + 1)"
  proof
    assume "0 < A mod L"
    then have "A div L + 1 \<le> A" using A0 L_pos by (simp add: div_plus1_le)
    then show "is_int32 (A div L + 1)" using q0 Ar by (simp add: is_int32_def)
  qed
  from normalLoop_spec [OF a1 a2 a3 a4 a5 a6 a7] obtain subsets' where
    r: "normalLoop subsets1 (n - 1) (A div L) (A mod L) L = Some subsets'"
       "\<forall>k < nat (n - 1 + 1). \<not> Specified (subsets1 ! k) \<longrightarrow>
            Replicas (subsets' ! k)
              = A div L
                + (if int (unpinnedCount (drop (Suc k) (take (nat (n - 1 + 1)) subsets1)))
                        < A mod L
                   then 1 else 0)"
       "sum_list (map Replicas subsets')
          = sum_list (map Replicas subsets1) - unpinnedSum (take (nat (n - 1 + 1)) subsets1)
            + L * (A div L) + A mod L"
    by blast
  have run: "normalAllocate subsets T (Some limits) = Some (subsets', toSubsetReplicaMap subsets')"
    using L_pos r(1)
    by (simp add: normalAllocate_unfold n_def [symmetric] L_def [symmetric] Sg_def [symmetric]
        A_eq dv md subsets1_def [symmetric])
  have c1: "\<forall>k < length subsets. map_of limits (SubsetName (subsets ! k)) = None \<longrightarrow>
            Replicas (subsets' ! k)
              = A div L + (if int (freeAbove limits subsets k) < A mod L then 1 else 0)"
  proof (intro allI impI)
    fix k assume k: "k < length subsets"
      and u: "map_of limits (SubsetName (subsets ! k)) = None"
    have e: "subsets1 ! k = subsets ! k" using k u by (simp add: subsets1_def pin_None)
    have "\<not> Specified (subsets1 ! k)" using e fresh k by simp
    moreover have "k < nat (n - 1 + 1)" using k by (simp add: n_def)
    ultimately have "Replicas (subsets' ! k)
              = A div L
                + (if int (unpinnedCount (drop (Suc k) (take (nat (n - 1 + 1)) subsets1)))
                        < A mod L
                   then 1 else 0)"
      using r(2) by blast
    moreover have "unpinnedCount (drop (Suc k) subsets1) = freeAbove limits subsets k"
    proof -
      have "\<forall>nts\<in>set (drop (Suc k) subsets). \<not> Specified nts"
        using fresh by (auto dest: in_set_dropD)
      from unpinnedCount_pin [OF this, of limits] show ?thesis
        by (simp add: subsets1_def drop_map freeAbove_def)
    qed
    ultimately show "Replicas (subsets' ! k)
              = A div L + (if int (freeAbove limits subsets k) < A mod L then 1 else 0)"
      by (simp only: whole)
  qed
  have c2: "sum_list (map Replicas subsets') = T"
  proof -
    have "L * (A div L) + A mod L = A" by simp
    moreover have "sum_list (map Replicas subsets1) = Sg + unpinnedSum subsets1"
      using sum_pin_split [OF fresh, of limits] by (simp add: subsets1_def Sg_def)
    moreover have "sum_list (map Replicas subsets')
          = sum_list (map Replicas subsets1) - unpinnedSum subsets1 + L * (A div L) + A mod L"
      using r(3) by (simp only: whole)
    ultimately have "sum_list (map Replicas subsets') = Sg + A"
      by linarith
    then show ?thesis by (simp add: A_def)
  qed
  show ?thesis
    using run c1 c2
    by (simp add: A_def Sg_def L_def n_def)
qed

lemma sum_limits_keys:
  "distinct (map fst limits) \<Longrightarrow>
   sum_list (map snd limits) = sum (limitOf limits) (fst ` set limits)"
proof (induction limits)
  case Nil
  then show ?case by simp
next
  case (Cons a limits)
  obtain k v where a: "a = (k, v)" by (cases a)
  from Cons.prems have fresh: "k \<notin> fst ` set limits" and d: "distinct (map fst limits)"
    by (simp_all add: a)
  have same: "\<And>n. n \<in> fst ` set limits \<Longrightarrow> limitOf (a # limits) n = limitOf limits n"
    using fresh by (auto simp: limitOf_def a)
  have "sum (limitOf (a # limits)) (fst ` set (a # limits))
        = limitOf (a # limits) k + sum (limitOf (a # limits)) (fst ` set limits)"
    using fresh by (simp add: a)
  also have "\<dots> = v + sum (limitOf limits) (fst ` set limits)"
    using same by (simp add: limitOf_def a)
  finally show ?case using Cons.IH [OF d] by (simp add: a)
qed

lemma specifiedSum_eq:
  assumes "distinct (map SubsetName subsets)"
    and "distinct (map fst limits)"
    and "fst ` set limits \<subseteq> SubsetName ` set subsets"
  shows "specifiedSum limits subsets = sum_list (map snd limits)"
proof -
  have "specifiedSum limits subsets = sum_list (map (limitOf limits) (map SubsetName subsets))"
    by (simp add: specifiedSum_def limitOf_def comp_def)
  also have "\<dots> = sum (limitOf limits) (set (map SubsetName subsets))"
    using assms(1) by (rule sum_list_distinct_conv_sum_set)
  also have "\<dots> = sum (limitOf limits) (fst ` set limits)"
  proof (rule sum.mono_neutral_right)
    show "finite (set (map SubsetName subsets))" by simp
    show "fst ` set limits \<subseteq> set (map SubsetName subsets)" using assms(3) by simp
    show "\<forall>i\<in>set (map SubsetName subsets) - fst ` set limits. limitOf limits i = 0"
    proof
      fix i assume "i \<in> set (map SubsetName subsets) - fst ` set limits"
      then have "map_of limits i = None" by (simp add: map_of_eq_None_iff)
      then show "limitOf limits i = 0" by (simp add: limitOf_def)
    qed
  qed
  also have "\<dots> = sum_list (map snd limits)"
    using sum_limits_keys [OF assms(2)] by simp
  finally show ?thesis .
qed

lemma specifiedCount_le: "specifiedCount limits subsets \<le> length subsets"
  by (simp add: specifiedCount_def)

lemma countSpecified_specifiedCount:
  "countSpecified subsets limits = int (specifiedCount limits subsets)"
  by (simp add: countSpecified_def countSpecified_fold specifiedCount_def)

lemma filter_full: "length (filter P xs) = length xs \<Longrightarrow> x \<in> set xs \<Longrightarrow> P x"
proof (induction xs)
  case Nil
  then show ?case by simp
next
  case (Cons a xs)
  show ?case
  proof (cases "P a")
    case True
    with Cons show ?thesis by auto
  next
    case False
    with Cons.prems have "length (filter P xs) = Suc (length xs)" by simp
    then show ?thesis by (metis length_filter_le Suc_n_not_le_n)
  qed
qed

lemma sum_all_pinned:
  assumes "specifiedCount limits subsets = length subsets"
  shows "sum_list (map Replicas (map (pin limits) subsets)) = specifiedSum limits subsets"
proof -
  have "\<forall>nts\<in>set subsets. map_of limits (SubsetName nts) \<noteq> None"
    using assms unfolding specifiedCount_def by (auto dest: filter_full)
  then show ?thesis
    by (induction subsets) (auto simp: specifiedSum_def pin_def)
qed

lemma incremental_total:
  assumes cur0: "\<forall>x\<in>set subsets. 0 \<le> Replicas x"
    and len: "int (length subsets) < 2 ^ 31"
    and T0: "0 \<le> T" and Tr: "is_int32 T"
    and curr: "is_int32 (sum_list (map Replicas subsets))"
    and ne: "subsets \<noteq> []"
  shows "\<exists>subsets'.
           incrementalAllocate subsets T = Some (subsets', toSubsetReplicaMap subsets')
         \<and> length subsets' = length subsets
         \<and> map SubsetName subsets' = map SubsetName subsets
         \<and> sum_list (map Replicas subsets') = T
         \<and> (\<forall>k < length subsets. 0 \<le> Replicas (subsets' ! k))"
proof -
  consider (out) "sum_list (map Replicas subsets) < T"
    | (inn) "T < sum_list (map Replicas subsets)"
    | (same) "T = sum_list (map Replicas subsets)"
    by linarith
  then show ?thesis
  proof cases
    case out
    from incremental_scale_out [OF cur0 len ne Tr out] show ?thesis by blast
  next
    case inn
    from incremental_scale_in [OF cur0 len T0 inn curr] show ?thesis by blast
  next
    case same
    have "incrementalAllocate subsets T = Some (subsets, toSubsetReplicaMap subsets)"
      using same Tr
      by (simp add: incrementalAllocate_def currentReplicas_eq i32_id i32_0 Let_def)
    moreover have "\<forall>k < length subsets. 0 \<le> Replicas (subsets ! k)"
      using cur0 by simp
    ultimately show ?thesis using same by simp
  qed
qed

lemma specifiedSum_nonneg:
  assumes "\<forall>(name, replicas)\<in>set limits. 0 \<le> replicas"
  shows "0 \<le> specifiedSum limits subsets"
proof -
  have "\<And>nts. 0 \<le> (case map_of limits (SubsetName nts) of
                        Some replicas \<Rightarrow> replicas | None \<Rightarrow> 0)"
    using assms by (auto split: option.splits dest: map_of_SomeD)
  then show ?thesis
    unfolding specifiedSum_def by (intro sum_list_nonneg) auto
qed

lemma normal_total:
  assumes fresh: "\<forall>nts\<in>set subsets. \<not> Specified nts"
    and Tr: "is_int32 T"
    and vals: "\<forall>(name, replicas)\<in>set limits. 0 \<le> replicas"
    and ST: "specifiedSum limits subsets \<le> T"
    and full: "specifiedCount limits subsets = length subsets
                 \<longrightarrow> specifiedSum limits subsets = T"
  shows "\<exists>subsets'.
           normalAllocate subsets T (Some limits) = Some (subsets', toSubsetReplicaMap subsets')
         \<and> length subsets' = length subsets
         \<and> map SubsetName subsets' = map SubsetName subsets
         \<and> sum_list (map Replicas subsets') = T
         \<and> (\<forall>k < length subsets. 0 \<le> Replicas (subsets' ! k))"
proof -
  have S0: "0 \<le> specifiedSum limits subsets" using vals by (rule specifiedSum_nonneg)
  from normalAllocate_frame [of subsets T limits] obtain subsets' where
    r: "normalAllocate subsets T (Some limits) = Some (subsets', toSubsetReplicaMap subsets')"
       "length subsets' = length subsets"
       "map SubsetName subsets' = map SubsetName subsets"
       "\<forall>k < length subsets. \<forall>v. map_of limits (SubsetName (subsets ! k)) = Some v
            \<longrightarrow> subsets' ! k = (subsets ! k)\<lparr>Replicas := v, Specified := True\<rparr>"
    by blast
  have pinned0: "\<And>k v. k < length subsets \<Longrightarrow>
                   map_of limits (SubsetName (subsets ! k)) = Some v \<Longrightarrow>
                   0 \<le> Replicas (subsets' ! k)"
  proof -
    fix k v assume k: "k < length subsets"
      and v: "map_of limits (SubsetName (subsets ! k)) = Some v"
    from r(4) k v have "Replicas (subsets' ! k) = v" by simp
    moreover from v vals have "0 \<le> v" by (auto dest: map_of_SomeD)
    ultimately show "0 \<le> Replicas (subsets' ! k)" by simp
  qed
  show ?thesis
  proof (cases "specifiedCount limits subsets < length subsets")
    case True
    define A where "A = T - specifiedSum limits subsets"
    define L where "L = int (length subsets) - int (specifiedCount limits subsets)"
    from normalAllocate_spec [OF fresh Tr S0 ST True] r(1)
    have s: "\<forall>k < length subsets. map_of limits (SubsetName (subsets ! k)) = None \<longrightarrow>
               Replicas (subsets' ! k)
                 = A div L + (if int (freeAbove limits subsets k) < A mod L then 1 else 0)"
      and total: "sum_list (map Replicas subsets') = T"
      by (simp_all add: A_def L_def)
    have q0: "0 \<le> A div L"
      using ST True by (simp add: A_def L_def pos_imp_zdiv_nonneg_iff)
    have "\<forall>k < length subsets. 0 \<le> Replicas (subsets' ! k)"
    proof (intro allI impI)
      fix k assume k: "k < length subsets"
      show "0 \<le> Replicas (subsets' ! k)"
      proof (cases "map_of limits (SubsetName (subsets ! k))")
        case None
        with s k have "Replicas (subsets' ! k)
                 = A div L + (if int (freeAbove limits subsets k) < A mod L then 1 else 0)"
          by blast
        with q0 show ?thesis by simp
      next
        case (Some v)
        with k show ?thesis by (rule pinned0)
      qed
    qed
    with r(1-3) total show ?thesis by blast
  next
    case False
    with specifiedCount_le [of limits subsets]
    have all: "specifiedCount limits subsets = length subsets" by simp
    then have "normalAllocate subsets T (Some limits)
               = Some (map (pin limits) subsets, toSubsetReplicaMap (map (pin limits) subsets))"
      by (simp add: normalAllocate_unfold)
    with r(1) have e: "subsets' = map (pin limits) subsets" by simp
    have total: "sum_list (map Replicas subsets') = T"
      using sum_all_pinned [OF all] full all by (simp add: e)
    have "\<forall>k < length subsets. 0 \<le> Replicas (subsets' ! k)"
    proof (intro allI impI)
      fix k assume k: "k < length subsets"
      have "map_of limits (SubsetName (subsets ! k)) \<noteq> None"
        using all k unfolding specifiedCount_def
        by (auto dest: filter_full [where x = "subsets ! k"])
      then obtain v where "map_of limits (SubsetName (subsets ! k)) = Some v" by auto
      with k show "0 \<le> Replicas (subsets' ! k)" by (rule pinned0)
    qed
    with r(1-3) total show ?thesis by blast
  qed
qed

lemma allocate_core:
  assumes d: "distinct (map SubsetName subsets)"
    and fresh: "\<forall>nts\<in>set subsets. \<not> Specified nts"
    and cur0: "\<forall>nts\<in>set subsets. 0 \<le> Replicas nts"
    and len: "int (length subsets) < 2 ^ 31"
    and T0: "0 \<le> T" and Tr: "is_int32 T"
    and curr: "is_int32 (sum_list (map Replicas subsets))"
    and dl: "distinct (map fst limits)"
    and keys: "fst ` set limits \<subseteq> SubsetName ` set subsets"
    and vals: "\<forall>(name, replicas)\<in>set limits. 0 \<le> replicas \<and> replicas \<le> T"
    and Sr: "is_int32 (sum_list (map snd limits))"
    and ne: "subsets \<noteq> []"
  shows "\<exists>subsets' effective reason.
           AllocateReplicas subsets T (Some limits)
             = Some (subsets', toSubsetReplicaMap subsets', effective, reason)
         \<and> length subsets' = length subsets
         \<and> map SubsetName subsets' = map SubsetName subsets
         \<and> sum_list (map Replicas subsets') = T
         \<and> (\<forall>k < length subsets. 0 \<le> Replicas (subsets' ! k))"
proof (cases "fst (effectiveReplicas subsets T (Some limits))")
  case True
  define Sg where "Sg = sum_list (map snd limits)"
  have Sg: "specifiedSum limits subsets = Sg"
    using specifiedSum_eq [OF d dl keys] by (simp add: Sg_def)
  have sl: "sumLimits limits = Sg" using Sr by (simp add: sumLimits_eq i32_id Sg_def)
  have eff: "effectiveReplicas subsets T (Some limits) = (True, '''')"
    using True by (rule effectiveReplicas_True)
  have le: "Sg \<le> T"
    using eff by (simp add: effectiveReplicas_def sl Let_def split: if_splits)
  have full: "specifiedCount limits subsets = length subsets \<longrightarrow> Sg = T"
    using eff le
    by (auto simp: effectiveReplicas_def sl Let_def countSpecified_specifiedCount Len_def
        split: if_splits)
  have vals0: "\<forall>(name, replicas)\<in>set limits. 0 \<le> replicas" using vals by auto
  from normal_total [OF fresh Tr vals0] le full Sg obtain subsets' where
    r: "normalAllocate subsets T (Some limits) = Some (subsets', toSubsetReplicaMap subsets')"
       "length subsets' = length subsets"
       "map SubsetName subsets' = map SubsetName subsets"
       "sum_list (map Replicas subsets') = T"
       "\<forall>k < length subsets. 0 \<le> Replicas (subsets' ! k)"
    by auto
  have "AllocateReplicas subsets T (Some limits)
        = Some (subsets', toSubsetReplicaMap subsets', True, '''')"
    by (simp add: AllocateReplicas_def eff r(1))
  with r(2-5) show ?thesis by blast
next
  case False
  then obtain reason where eff: "effectiveReplicas subsets T (Some limits) = (False, reason)"
    by (cases "effectiveReplicas subsets T (Some limits)") auto
  from incremental_total [OF cur0 len T0 Tr curr ne] obtain subsets' where
    r: "incrementalAllocate subsets T = Some (subsets', toSubsetReplicaMap subsets')"
       "length subsets' = length subsets"
       "map SubsetName subsets' = map SubsetName subsets"
       "sum_list (map Replicas subsets') = T"
       "\<forall>k < length subsets. 0 \<le> Replicas (subsets' ! k)"
    by blast
  have "AllocateReplicas subsets T (Some limits)
        = Some (subsets', toSubsetReplicaMap subsets', False, reason)"
    by (simp add: AllocateReplicas_def eff r(1))
  with r(2-5) show ?thesis by blast
qed

lemma Less_iff:
  "Less a b \<longleftrightarrow> Replicas a < Replicas b
                 \<or> (Replicas a = Replicas b \<and> SubsetName a < SubsetName b)"
  by (auto simp: Less_def strings_Compare_def)

lemma Less_irrefl: "\<not> Less a a"
  by (simp add: Less_iff)

lemma Less_trans: "Less a b \<Longrightarrow> Less b c \<Longrightarrow> Less a c"
  by (auto simp: Less_iff)

lemma Less_asym: "Less a b \<Longrightarrow> \<not> Less b a"
  by (auto simp: Less_iff)

lemma Less_total: "SubsetName a \<noteq> SubsetName b \<Longrightarrow> Less a b \<or> Less b a"
  by (auto simp: Less_iff)

lemma set_insertLess: "set (insertLess x ys) = insert x (set ys)"
  by (induction ys) auto

lemma mset_insertLess: "mset (insertLess x ys) = add_mset x (mset ys)"
  by (induction ys) auto

lemma mset_sort_Sort: "mset (sort_Sort xs) = mset xs"
  unfolding sort_Sort_def by (induction xs) (simp_all add: mset_insertLess)

lemma noInversion_insertLess:
  "noInversion ys \<Longrightarrow> noInversion (insertLess x ys)"
proof (induction ys)
  case Nil
  then show ?case by (simp add: noInversion_def)
next
  case (Cons y ys)
  from Cons.prems have tl: "noInversion ys" and hd: "\<forall>z\<in>set ys. \<not> Less z y"
    by (simp_all add: noInversion_def)
  show ?case
  proof (cases "Less x y")
    case True
    have "\<not> Less y x" using True by (rule Less_asym)
    moreover have "\<forall>z\<in>set ys. \<not> Less z x"
      using hd True by (blast intro: Less_trans)
    ultimately show ?thesis
      using True Cons.prems by (simp add: noInversion_def)
  next
    case False
    have "noInversion (insertLess x ys)" using tl by (rule Cons.IH)
    then show ?thesis
      using False hd by (simp add: noInversion_def set_insertLess)
  qed
qed

lemma noInversion_sort_Sort: "noInversion (sort_Sort xs)"
proof (induction xs)
  case Nil
  then show ?case by (simp add: sort_Sort_def noInversion_def)
next
  case (Cons a xs)
  then show ?case
    using noInversion_insertLess [of "sort_Sort xs" a] by (simp add: sort_Sort_def)
qed

lemma sorted_unique:
  assumes "distinct (map SubsetName ys)"
    and "mset ys = mset zs"
    and "noInversion ys" and "noInversion zs"
  shows "ys = zs"
  using assms
proof (induction ys arbitrary: zs)
  case Nil
  then show ?case by simp
next
  case (Cons y ys)
  from Cons.prems(2) obtain z zs' where zs: "zs = z # zs'"
    by (cases zs) auto
  have yz: "y = z"
  proof (rule ccontr)
    assume ne: "y \<noteq> z"
    have "set (y # ys) = set zs" using Cons.prems(2) by (rule mset_eq_setD)
    then have y_in: "y \<in> set zs'" and z_in: "z \<in> set ys"
      using ne zs by auto
    from Cons.prems(4) y_in have n1: "\<not> Less y z" by (simp add: zs noInversion_def)
    from Cons.prems(3) z_in have n2: "\<not> Less z y" by (simp add: noInversion_def)
    from Cons.prems(1) z_in have "SubsetName y \<noteq> SubsetName z" by auto
    from Less_total [OF this] n1 n2 show False by simp
  qed
  have "ys = zs'"
  proof (rule Cons.IH)
    show "distinct (map SubsetName ys)" using Cons.prems(1) by simp
    show "mset ys = mset zs'" using Cons.prems(2) yz zs by simp
    show "noInversion ys" using Cons.prems(3) by (simp add: noInversion_def)
    show "noInversion zs'" using Cons.prems(4) by (simp add: zs noInversion_def)
  qed
  with yz zs show ?case by simp
qed

lemma sort_Sort_unique:
  assumes "distinct (map SubsetName xs)" and "mset ys = mset xs" and "noInversion ys"
  shows "ys = sort_Sort xs"
proof (rule sorted_unique)
  have "mset (map SubsetName ys) = mset (map SubsetName xs)"
    using assms(2) by simp
  then show "distinct (map SubsetName ys)"
    using assms(1) by (metis mset_eq_imp_distinct_iff)
  show "mset ys = mset (sort_Sort xs)" using assms(2) by (simp add: mset_sort_Sort)
  show "noInversion ys" by (rule assms(3))
  show "noInversion (sort_Sort xs)" by (rule noInversion_sort_Sort)
qed

lemma limitOf_cong: "map_of l = map_of l' \<Longrightarrow> limitOf l = limitOf l'"
  by (rule ext) (simp add: limitOf_def)

lemma sumLimits_cong:
  assumes "distinct (map fst l)" and "distinct (map fst l')" and "map_of l = map_of l'"
  shows "sumLimits l = sumLimits l'"
proof -
  have "fst ` set l = fst ` set l'"
    using assms(3) by (metis dom_map_of_conv_image_fst)
  then have "sum_list (map snd l) = sum_list (map snd l')"
    using sum_limits_keys [OF assms(1)] sum_limits_keys [OF assms(2)]
      limitOf_cong [OF assms(3)] by simp
  then show ?thesis by (simp add: sumLimits_eq)
qed

lemma effectiveReplicas_cong:
  assumes "distinct (map fst l)" and "distinct (map fst l')" and "map_of l = map_of l'"
  shows "effectiveReplicas subsets T (Some l) = effectiveReplicas subsets T (Some l')"
proof -
  have "countSpecified subsets l = countSpecified subsets l'"
    using assms(3) by (simp add: countSpecified_def)
  then show ?thesis
    using sumLimits_cong [OF assms] by (simp add: effectiveReplicas_def Let_def)
qed

lemma normalAllocate_cong:
  assumes "map_of l = map_of l'"
  shows "normalAllocate subsets T (Some l) = normalAllocate subsets T (Some l')"
proof -
  have "pin l = pin l'" using assms by (intro ext) (simp add: pin_def)
  moreover have "specifiedSum l subsets = specifiedSum l' subsets"
    using assms by (simp add: specifiedSum_def)
  moreover have "specifiedCount l subsets = specifiedCount l' subsets"
    using assms by (simp add: specifiedCount_def)
  ultimately show ?thesis by (simp add: normalAllocate_unfold)
qed

lemma AllocateReplicas_cong:
  assumes "distinct (map fst l)" and "distinct (map fst l')" and "map_of l = map_of l'"
  shows "AllocateReplicas subsets T (Some l) = AllocateReplicas subsets T (Some l')"
  unfolding AllocateReplicas_def
  by (simp only: effectiveReplicas_cong [OF assms] normalAllocate_cong [OF assms(3)])

lemma getSubsetInfos_names:
  "map SubsetName (getSubsetInfos nameToSubset topology) = map Name topology"
  by (simp add: getSubsetInfos_def comp_def)

lemma fold_update_distinct:
  "distinct (map fst acc) \<Longrightarrow>
   distinct (map fst (fold (\<lambda>subsetDef replicaLimits.
                   case ReplicasSpec subsetDef of
                     None \<Rightarrow> replicaLimits
                   | Some spec \<Rightarrow>
                       (case parse udReplicas spec of
                          Some specifiedReplicas \<Rightarrow>
                            AList.update (Name subsetDef) specifiedReplicas replicaLimits
                        | None \<Rightarrow> replicaLimits))
                topology acc))"
proof (induction topology arbitrary: acc)
  case Nil
  then show ?case by simp
next
  case (Cons a topology)
  show ?case
    using Cons.prems
    by (auto intro!: Cons.IH simp: distinct_update split: option.splits)
qed

lemma getSpecifiedSubsetReplicas_distinct:
  "getSpecifiedSubsetReplicas parse T topology = Some built \<Longrightarrow> distinct (map fst built)"
  unfolding getSpecifiedSubsetReplicas_def
  using fold_update_distinct [of "[]" parse T topology] by auto

lemma String_eq: "String subsets = (sort_Sort subsets, formatRecords (sort_Sort subsets))"
  by (simp add: String_def formatRecords_def Let_def)

lemma limitOf_nonneg:
  "\<forall>(name, replicas)\<in>set limits. 0 \<le> replicas \<Longrightarrow> 0 \<le> limitOf limits name"
  by (auto simp: limitOf_def split: option.splits dest: map_of_SomeD)

lemma specifiedSum_le:
  assumes "distinct (map SubsetName subsets)"
    and "distinct (map fst limits)"
    and "\<forall>(name, replicas)\<in>set limits. 0 \<le> replicas"
  shows "specifiedSum limits subsets \<le> sum_list (map snd limits)"
proof -
  have "specifiedSum limits subsets = sum_list (map (limitOf limits) (map SubsetName subsets))"
    by (simp add: specifiedSum_def limitOf_def comp_def)
  also have "\<dots> = sum (limitOf limits) (set (map SubsetName subsets))"
    using assms(1) by (rule sum_list_distinct_conv_sum_set)
  also have "\<dots> = sum (limitOf limits) (set (map SubsetName subsets) \<inter> fst ` set limits)"
  proof (rule sum.mono_neutral_right)
    show "finite (set (map SubsetName subsets))" by simp
    show "set (map SubsetName subsets) \<inter> fst ` set limits \<subseteq> set (map SubsetName subsets)"
      by simp
    show "\<forall>i\<in>set (map SubsetName subsets)
               - set (map SubsetName subsets) \<inter> fst ` set limits. limitOf limits i = 0"
    proof
      fix i assume "i \<in> set (map SubsetName subsets)
                        - set (map SubsetName subsets) \<inter> fst ` set limits"
      then have "map_of limits i = None" by (simp add: map_of_eq_None_iff)
      then show "limitOf limits i = 0" by (simp add: limitOf_def)
    qed
  qed
  also have "\<dots> \<le> sum (limitOf limits) (fst ` set limits)"
  proof (rule sum_mono2)
    show "finite (fst ` set limits)" by simp
    show "set (map SubsetName subsets) \<inter> fst ` set limits \<subseteq> fst ` set limits" by simp
    show "\<And>b. b \<in> fst ` set limits - set (map SubsetName subsets) \<inter> fst ` set limits
            \<Longrightarrow> 0 \<le> limitOf limits b"
      using limitOf_nonneg [OF assms(3)] by simp
  qed
  also have "\<dots> = sum_list (map snd limits)"
    using sum_limits_keys [OF assms(2)] by simp
  finally show ?thesis .
qed

lemma normal_nonneg:
  assumes fresh: "\<forall>nts\<in>set subsets. \<not> Specified nts"
    and Tr: "is_int32 T"
    and vals: "\<forall>(name, replicas)\<in>set limits. 0 \<le> replicas"
    and ST: "specifiedSum limits subsets \<le> T"
  shows "\<exists>subsets'.
           normalAllocate subsets T (Some limits) = Some (subsets', toSubsetReplicaMap subsets')
         \<and> length subsets' = length subsets
         \<and> map SubsetName subsets' = map SubsetName subsets
         \<and> (\<forall>k < length subsets. 0 \<le> Replicas (subsets' ! k))"
proof -
  have S0: "0 \<le> specifiedSum limits subsets" using vals by (rule specifiedSum_nonneg)
  from normalAllocate_frame [of subsets T limits] obtain subsets' where
    r: "normalAllocate subsets T (Some limits) = Some (subsets', toSubsetReplicaMap subsets')"
       "length subsets' = length subsets"
       "map SubsetName subsets' = map SubsetName subsets"
       "\<forall>k < length subsets. \<forall>v. map_of limits (SubsetName (subsets ! k)) = Some v
            \<longrightarrow> subsets' ! k = (subsets ! k)\<lparr>Replicas := v, Specified := True\<rparr>"
    by blast
  have "\<forall>k < length subsets. 0 \<le> Replicas (subsets' ! k)"
  proof (intro allI impI)
    fix k assume k: "k < length subsets"
    show "0 \<le> Replicas (subsets' ! k)"
    proof (cases "map_of limits (SubsetName (subsets ! k))")
      case (Some v)
      with r(4) k have "Replicas (subsets' ! k) = v" by simp
      moreover from Some vals have "0 \<le> v" by (auto dest: map_of_SomeD)
      ultimately show ?thesis by simp
    next
      case None
      have free: "specifiedCount limits subsets < length subsets"
      proof (rule ccontr)
        assume "\<not> specifiedCount limits subsets < length subsets"
        with specifiedCount_le [of limits subsets]
        have "specifiedCount limits subsets = length subsets" by simp
        then have "map_of limits (SubsetName (subsets ! k)) \<noteq> None"
          using k unfolding specifiedCount_def
          by (auto dest: filter_full [where x = "subsets ! k"])
        with None show False by simp
      qed
      define A where "A = T - specifiedSum limits subsets"
      define L where "L = int (length subsets) - int (specifiedCount limits subsets)"
      from normalAllocate_spec [OF fresh Tr S0 ST free] r(1)
      have "\<forall>k < length subsets. map_of limits (SubsetName (subsets ! k)) = None \<longrightarrow>
               Replicas (subsets' ! k)
                 = A div L + (if int (freeAbove limits subsets k) < A mod L then 1 else 0)"
        by (simp add: A_def L_def)
      with k None have "Replicas (subsets' ! k)
                 = A div L + (if int (freeAbove limits subsets k) < A mod L then 1 else 0)"
        by blast
      moreover have "0 \<le> A div L"
        using ST free by (simp add: A_def L_def pos_imp_zdiv_nonneg_iff)
      ultimately show ?thesis by simp
    qed
  qed
  with r(1-3) show ?thesis by blast
qed

lemma allocate_nonneg_core:
  assumes d: "distinct (map SubsetName subsets)"
    and fresh: "\<forall>nts\<in>set subsets. \<not> Specified nts"
    and cur0: "\<forall>nts\<in>set subsets. 0 \<le> Replicas nts"
    and len: "int (length subsets) < 2 ^ 31"
    and T0: "0 \<le> T" and Tr: "is_int32 T"
    and curr: "is_int32 (sum_list (map Replicas subsets))"
    and dl: "distinct (map fst limits)"
    and vals: "\<forall>(name, replicas)\<in>set limits. 0 \<le> replicas \<and> replicas \<le> T"
    and Sr: "is_int32 (sum_list (map snd limits))"
    and ne: "subsets \<noteq> []"
  shows "\<exists>subsets' effective reason.
           AllocateReplicas subsets T (Some limits)
             = Some (subsets', toSubsetReplicaMap subsets', effective, reason)
         \<and> length subsets' = length subsets
         \<and> map SubsetName subsets' = map SubsetName subsets
         \<and> (\<forall>k < length subsets. 0 \<le> Replicas (subsets' ! k))"
proof (cases "fst (effectiveReplicas subsets T (Some limits))")
  case True
  define Sg where "Sg = sum_list (map snd limits)"
  have vals0: "\<forall>(name, replicas)\<in>set limits. 0 \<le> replicas" using vals by auto
  have sl: "sumLimits limits = Sg" using Sr by (simp add: sumLimits_eq i32_id Sg_def)
  have eff: "effectiveReplicas subsets T (Some limits) = (True, '''')"
    using True by (rule effectiveReplicas_True)
  have "Sg \<le> T"
    using eff by (simp add: effectiveReplicas_def sl Let_def split: if_splits)
  with specifiedSum_le [OF d dl vals0] have ST: "specifiedSum limits subsets \<le> T"
    by (simp add: Sg_def)
  from normal_nonneg [OF fresh Tr vals0 ST] obtain subsets' where
    r: "normalAllocate subsets T (Some limits) = Some (subsets', toSubsetReplicaMap subsets')"
       "length subsets' = length subsets"
       "map SubsetName subsets' = map SubsetName subsets"
       "\<forall>k < length subsets. 0 \<le> Replicas (subsets' ! k)"
    by blast
  have "AllocateReplicas subsets T (Some limits)
        = Some (subsets', toSubsetReplicaMap subsets', True, '''')"
    by (simp add: AllocateReplicas_def eff r(1))
  with r(2-4) show ?thesis by blast
next
  case False
  then obtain reason where eff: "effectiveReplicas subsets T (Some limits) = (False, reason)"
    by (cases "effectiveReplicas subsets T (Some limits)") auto
  from incremental_total [OF cur0 len T0 Tr curr ne] obtain subsets' where
    r: "incrementalAllocate subsets T = Some (subsets', toSubsetReplicaMap subsets')"
       "length subsets' = length subsets"
       "map SubsetName subsets' = map SubsetName subsets"
       "\<forall>k < length subsets. 0 \<le> Replicas (subsets' ! k)"
    by blast
  have "AllocateReplicas subsets T (Some limits)
        = Some (subsets', toSubsetReplicaMap subsets', False, reason)"
    by (simp add: AllocateReplicas_def eff r(1))
  with r(2-4) show ?thesis by blast
qed

lemma AllocateReplicas_no_records:
  assumes "0 \<le> T" and "is_int32 T"
  shows "\<exists>subsets' effective reason.
           AllocateReplicas [] T (Some limits) = Some (subsets', [], effective, reason)"
proof -
  have inc: "incrementalAllocate [] T = Some ([], [])"
    using assms
    by (auto simp: incrementalAllocate_def currentReplicas_def Len_def i32_id
        scaleOutExclude.simps scaleOutAssign.simps initState_def toSubsetReplicaMap_def
        Let_def)
  have nor: "normalAllocate [] T (Some limits) = Some ([], [])"
    by (simp add: normalAllocate_def Len_def toSubsetReplicaMap_def)
  show ?thesis
    by (cases "effectiveReplicas [] T (Some limits)")
       (auto simp: AllocateReplicas_def inc nor)
qed

section \<open>Properties of the allocator\<close>

text \<open>
  C2. The feasibility check is infeasible exactly when the sum of the specified map exceeds
  the total, or when the sum is below the total and every record is named in the map; in
  every other case, and for a \<^verbatim>\<open>nil\<close> map, it is feasible with the empty reason. The sum is
  the one the code holds in an \<^verbatim>\<open>int32\<close>, so it is required to fit.
\<close>

theorem effectiveReplicas_iff:
  assumes "is_int32 (sum_list (map snd limits))"
  shows "(fst (effectiveReplicas subsets T (Some limits)) \<longleftrightarrow>
            \<not> (sum_list (map snd limits) > T
               \<or> (sum_list (map snd limits) < T
                  \<and> length (filter (\<lambda>nts. SubsetName nts \<in> fst ` set limits) subsets)
                      = length subsets)))
         \<and> (fst (effectiveReplicas subsets T (Some limits))
              \<longrightarrow> snd (effectiveReplicas subsets T (Some limits)) = '''')
         \<and> effectiveReplicas subsets T None = (True, '''')"
  using assms
  by (simp add: effectiveReplicas_def sumLimits_eq countSpecified_eq i32_id Len_def Let_def)

theorem effectiveReplicas_iff_witness:
  "is_int32 (sum_list (map snd [(''A'', 8), (''B'', 8 :: int)]))
   \<and> \<not> fst (effectiveReplicas
              [\<lparr>SubsetName = ''A'', Replicas = 2, Specified = False\<rparr>,
               \<lparr>SubsetName = ''B'', Replicas = 8, Specified = False\<rparr>]
              10 (Some [(''A'', 8), (''B'', 8)]))
   \<and> fst (effectiveReplicas
              [\<lparr>SubsetName = ''A'', Replicas = 2, Specified = False\<rparr>,
               \<lparr>SubsetName = ''B'', Replicas = 8, Specified = False\<rparr>]
              10 (Some [(''A'', 7)]))"
proof -
  let ?subsets = "[\<lparr>SubsetName = ''A'', Replicas = 2, Specified = False\<rparr>,
                   \<lparr>SubsetName = ''B'', Replicas = 8, Specified = False\<rparr>]"
  have r1: "is_int32 (sum_list (map snd [(''A'', 8), (''B'', 8 :: int)]))"
    by (simp add: is_int32_def)
  have r2: "is_int32 (sum_list (map snd [(''A'', 7 :: int)]))"
    by (simp add: is_int32_def)
  show ?thesis
    using r1 effectiveReplicas_iff [OF r1, where T = 10 and subsets = ?subsets]
      effectiveReplicas_iff [OF r2, where T = 10 and subsets = ?subsets]
    by simp
qed

text \<open>
  C7. If the requested total equals the sum of the current replica counts, the incremental
  allocator changes no record, and the map it returns gives every subset its current
  count.
\<close>

theorem incrementalAllocate_unchanged:
  assumes "is_int32 T"
    and "T = sum_list (map Replicas subsets)"
    and "distinct (map SubsetName subsets)"
  shows "incrementalAllocate subsets T = Some (subsets, toSubsetReplicaMap subsets)
         \<and> (\<forall>nts \<in> set subsets.
               map_of (toSubsetReplicaMap subsets) (SubsetName nts) = Some (Replicas nts))"
  using assms
  by (simp add: incrementalAllocate_def currentReplicas_eq i32_id i32_0 Let_def
      map_of_toSubsetReplicaMap)

theorem incrementalAllocate_unchanged_witness:
  "is_int32 10 \<and>
   incrementalAllocate
     [\<lparr>SubsetName = ''A'', Replicas = 2, Specified = False\<rparr>,
      \<lparr>SubsetName = ''B'', Replicas = 8, Specified = False\<rparr>] 10
   = Some ([\<lparr>SubsetName = ''A'', Replicas = 2, Specified = False\<rparr>,
            \<lparr>SubsetName = ''B'', Replicas = 8, Specified = False\<rparr>],
           [(''A'', 2), (''B'', 8)])"
proof -
  let ?subsets = "[\<lparr>SubsetName = ''A'', Replicas = 2, Specified = False\<rparr>,
                   \<lparr>SubsetName = ''B'', Replicas = 8, Specified = False\<rparr>]"
  have r: "is_int32 10" by (simp add: is_int32_def)
  have s: "10 = sum_list (map Replicas ?subsets)" by simp
  have d: "distinct (map SubsetName ?subsets)" by simp
  show ?thesis
    using r incrementalAllocate_unchanged [OF r s d]
    by (simp add: toSubsetReplicaMap_def)
qed

text \<open>
  C9. For a topology without subsets and a positive total, the derived specified map is
  empty, the feasibility check reports infeasible (the sum 0 is below the total and the 0
  specified records are all 0 records), and the incremental path returns the empty map,
  whose values sum to 0 and not to the total.
\<close>

theorem empty_topology:
  assumes "0 < T" and "is_int32 T"
  shows "getSpecifiedSubsetReplicas parse T [] = Some []
         \<and> SortToAllocator (getSubsetInfos nameToSubset []) = []
         \<and> effectiveReplicas [] T (Some []) = (False, lessReason 0 T)
         \<and> incrementalAllocate [] T = Some ([], [])
         \<and> GetAllocatedReplicas parse nameToSubset T [] = Some ([], [], False, lessReason 0 T)
         \<and> sumValues [] = 0 \<and> sumValues [] \<noteq> T"
  using assms
  by (simp add: getSpecifiedSubsetReplicas_def getSubsetInfos_def SortToAllocator_def
      sort_Sort_def effectiveReplicas_def sumLimits_def countSpecified_def Len_def
      incrementalAllocate_def currentReplicas_def i32_id i32_0 scaleOutExclude.simps
      scaleOutAssign.simps initState_def GetAllocatedReplicas_def AllocateReplicas_def
      toSubsetReplicaMap_def sumValues_def Let_def)

theorem empty_topology_witness:
  "(0::int) < 3 \<and> is_int32 3 \<and> incrementalAllocate [] 3 = Some ([], [])
   \<and> fst (effectiveReplicas [] 3 (Some [])) = False"
proof -
  have p: "(0::int) < 3" by simp
  have r: "is_int32 3" by (simp add: is_int32_def)
  show ?thesis
    using p r empty_topology [OF p r, where parse = "\<lambda>t (s::int). None"
        and nameToSubset = Map.empty]
    by (metis fst_conv)
qed

text \<open>
  C5. Scaling in (the total is below the current sum): there is a boundary index \<open>b\<close> such
  that every record below \<open>b\<close> has a current count strictly below the average of the pool
  remaining at its index and keeps its record unchanged, the record at \<open>b\<close> is the first
  whose current count is at least that average, and over the range from \<open>b\<close> to the last
  index every record receives the average of the pool at \<open>b\<close>, plus one exactly on the
  last \<open>pool mod count\<close> indices.
\<close>

theorem scale_in_allocation:
  assumes "\<forall>x\<in>set subsets. 0 \<le> Replicas x"
    and "int (length subsets) < 2 ^ 31"
    and "0 \<le> T"
    and "T < sum_list (map Replicas subsets)"
    and "is_int32 (sum_list (map Replicas subsets))"
  shows "\<exists>b subsets'.
           incrementalAllocate subsets T = Some (subsets', toSubsetReplicaMap subsets')
         \<and> b < length subsets
         \<and> length subsets' = length subsets
         \<and> map SubsetName subsets' = map SubsetName subsets
         \<and> (\<forall>k < b.
               Replicas (subsets ! k)
                 < remainingPool subsets T k div (int (length subsets) - int k)
             \<and> subsets' ! k = subsets ! k)
         \<and> remainingPool subsets T b div (int (length subsets) - int b)
               \<le> Replicas (subsets ! b)
         \<and> (\<forall>k. b \<le> k \<and> k < length subsets \<longrightarrow>
               Replicas (subsets' ! k)
                 = remainingPool subsets T b div (int (length subsets) - int b)
                   + (if int (length subsets) - int k
                           \<le> remainingPool subsets T b mod (int (length subsets) - int b)
                      then 1 else 0))"
proof -
  from incremental_scale_in [OF assms] obtain st subsets' where
    r0: "scaleInExclude subsets (Len subsets) (initState 0 T) = Some st"
    and r: "0 \<le> st_i st" "st_i st < Len subsets"
       "incrementalAllocate subsets T = Some (subsets', toSubsetReplicaMap subsets')"
       "length subsets' = length subsets"
       "map SubsetName subsets' = map SubsetName subsets"
       "sum_list (map Replicas subsets') = T"
       "\<forall>k < length subsets. 0 \<le> Replicas (subsets' ! k)"
       "\<forall>k < nat (st_i st).
               Replicas (subsets ! k)
                 < remainingPool subsets T k div (int (length subsets) - int k)
             \<and> subsets' ! k = subsets ! k"
       "remainingPool subsets T (nat (st_i st)) div (int (length subsets) - st_i st)
               \<le> Replicas (subsets ! nat (st_i st))"
       "\<forall>k. nat (st_i st) \<le> k \<and> k < length subsets \<longrightarrow>
               Replicas (subsets' ! k)
                 = remainingPool subsets T (nat (st_i st)) div (int (length subsets) - st_i st)
                   + (if int (length subsets) - int k
                           \<le> remainingPool subsets T (nat (st_i st))
                               mod (int (length subsets) - st_i st)
                      then 1 else 0)"
    by (elim exE conjE) (rule that)
  define b where "b = nat (st_i st)"
  have ib: "st_i st = int b" using r(1) by (simp add: b_def)
  have "b < length subsets" using r(2) by (simp add: ib Len_def)
  moreover note r(3-5) r(8-10) [unfolded ib nat_int]
  ultimately show ?thesis
    by (intro exI [of _ b] exI [of _ subsets'] conjI)
qed

theorem scale_in_allocation_witness:
  "\<exists>subsets'.
     incrementalAllocate
       [\<lparr>SubsetName = ''A'', Replicas = 1, Specified = False\<rparr>,
        \<lparr>SubsetName = ''B'', Replicas = 5, Specified = False\<rparr>,
        \<lparr>SubsetName = ''C'', Replicas = 5, Specified = False\<rparr>] 9
     = Some (subsets', toSubsetReplicaMap subsets') \<and> length subsets' = 3"
proof -
  let ?subsets = "[\<lparr>SubsetName = ''A'', Replicas = 1, Specified = False\<rparr>,
                   \<lparr>SubsetName = ''B'', Replicas = 5, Specified = False\<rparr>,
                   \<lparr>SubsetName = ''C'', Replicas = 5, Specified = False\<rparr>]"
  have h1: "\<forall>x\<in>set ?subsets. 0 \<le> Replicas x" by simp
  have h2: "int (length ?subsets) < 2 ^ 31" by simp
  have h3: "(0::int) \<le> 9" by simp
  have h4: "9 < sum_list (map Replicas ?subsets)" by simp
  have h5: "is_int32 (sum_list (map Replicas ?subsets))" by (simp add: is_int32_def)
  from scale_in_allocation [OF h1 h2 h3 h4 h5] show ?thesis by auto
qed

text \<open>
  C10. For a non-empty record list the exclusion loops stop inside the list: when scaling
  out the loop ends at an index \<open>i \<ge> 0\<close>, when scaling in it ends at an index
  \<open>i \<le> N - 1\<close>, and the allocator returns a result, that is, no \<^verbatim>\<open>Get\<close> is out of
  range. Sortedness of the list is not needed.
\<close>

theorem exclusion_boundary_in_range:
  assumes "subsets \<noteq> []"
    and "\<forall>x\<in>set subsets. 0 \<le> Replicas x"
    and "int (length subsets) < 2 ^ 31"
    and "0 \<le> T" and "is_int32 T"
    and "is_int32 (sum_list (map Replicas subsets))"
  shows "(sum_list (map Replicas subsets) < T \<longrightarrow>
            (\<exists>st. scaleOutExclude subsets (initState (Len subsets - 1) T) = Some st
                 \<and> 0 \<le> st_i st \<and> st_i st < Len subsets))
       \<and> (T < sum_list (map Replicas subsets) \<longrightarrow>
            (\<exists>st. scaleInExclude subsets (Len subsets) (initState 0 T) = Some st
                 \<and> 0 \<le> st_i st \<and> st_i st \<le> Len subsets - 1))
       \<and> (\<exists>subsets'. incrementalAllocate subsets T = Some (subsets', toSubsetReplicaMap subsets')
                     \<and> length subsets' = length subsets)"
proof (intro conjI impI)
  assume "sum_list (map Replicas subsets) < T"
  from incremental_scale_out [OF assms(2,3,1,5) this]
  show "\<exists>st. scaleOutExclude subsets (initState (Len subsets - 1) T) = Some st
             \<and> 0 \<le> st_i st \<and> st_i st < Len subsets"
    by blast
next
  assume "T < sum_list (map Replicas subsets)"
  from incremental_scale_in [OF assms(2,3,4) this assms(6)]
  show "\<exists>st. scaleInExclude subsets (Len subsets) (initState 0 T) = Some st
             \<and> 0 \<le> st_i st \<and> st_i st \<le> Len subsets - 1"
    by fastforce
next
  consider (out) "sum_list (map Replicas subsets) < T"
    | (inn) "T < sum_list (map Replicas subsets)"
    | (same) "T = sum_list (map Replicas subsets)"
    by linarith
  then show "\<exists>subsets'. incrementalAllocate subsets T = Some (subsets', toSubsetReplicaMap subsets')
                     \<and> length subsets' = length subsets"
  proof cases
    case out
    from incremental_scale_out [OF assms(2,3,1,5) this] show ?thesis by blast
  next
    case inn
    from incremental_scale_in [OF assms(2,3,4) this assms(6)] show ?thesis by blast
  next
    case same
    then show ?thesis
      using assms(5)
      by (simp add: incrementalAllocate_def currentReplicas_eq i32_id i32_0 Let_def)
  qed
qed

theorem exclusion_boundary_in_range_witness:
  "(\<exists>st. scaleOutExclude
            [\<lparr>SubsetName = ''A'', Replicas = 1, Specified = False\<rparr>,
             \<lparr>SubsetName = ''B'', Replicas = 5, Specified = False\<rparr>,
             \<lparr>SubsetName = ''C'', Replicas = 50, Specified = False\<rparr>]
            (initState 2 60) = Some st \<and> 0 \<le> st_i st)
   \<and> (\<exists>st. scaleInExclude
            [\<lparr>SubsetName = ''A'', Replicas = 1, Specified = False\<rparr>,
             \<lparr>SubsetName = ''B'', Replicas = 5, Specified = False\<rparr>,
             \<lparr>SubsetName = ''C'', Replicas = 50, Specified = False\<rparr>]
            3 (initState 0 13) = Some st \<and> st_i st \<le> 2)"
proof -
  let ?subsets = "[\<lparr>SubsetName = ''A'', Replicas = 1, Specified = False\<rparr>,
                   \<lparr>SubsetName = ''B'', Replicas = 5, Specified = False\<rparr>,
                   \<lparr>SubsetName = ''C'', Replicas = 50, Specified = False\<rparr>]"
  have h1: "?subsets \<noteq> []" by simp
  have h2: "\<forall>x\<in>set ?subsets. 0 \<le> Replicas x" by simp
  have h3: "int (length ?subsets) < 2 ^ 31" by simp
  have h4: "(0::int) \<le> 60" "(0::int) \<le> 13" by simp_all
  have h5: "is_int32 60" "is_int32 13" by (simp_all add: is_int32_def)
  have h6: "is_int32 (sum_list (map Replicas ?subsets))" by (simp add: is_int32_def)
  have "\<exists>st. scaleOutExclude ?subsets (initState 2 60) = Some st \<and> 0 \<le> st_i st"
    using exclusion_boundary_in_range [OF h1 h2 h3 h4(1) h5(1) h6]
    by (simp add: Len_def) blast
  moreover
  have "\<exists>st. scaleInExclude ?subsets 3 (initState 0 13) = Some st \<and> st_i st \<le> 2"
    using exclusion_boundary_in_range [OF h1 h2 h3 h4(2) h5(2) h6]
    by (simp add: Len_def) blast
  ultimately show ?thesis by blast
qed

text \<open>
  C3. When the specified replicas are feasible, the allocator takes the normal path, and
  every record whose name is in the specified map ends with exactly its specified value
  and marked as specified: the distribution of the remainder does not touch it. With
  unique subset names the returned map gives the subset that value.
\<close>

theorem pinned_fidelity:
  assumes "distinct (map SubsetName subsets)"
    and "fst (effectiveReplicas subsets T (Some limits))"
  shows "\<exists>subsets' m.
           AllocateReplicas subsets T (Some limits) = Some (subsets', m, True, '''')
         \<and> length subsets' = length subsets
         \<and> (\<forall>k < length subsets. \<forall>v.
               map_of limits (SubsetName (subsets ! k)) = Some v \<longrightarrow>
                 subsets' ! k = (subsets ! k)\<lparr>Replicas := v, Specified := True\<rparr>
               \<and> map_of m (SubsetName (subsets ! k)) = Some v)"
proof -
  from normalAllocate_frame [of subsets T limits] obtain subsets' where
    r: "normalAllocate subsets T (Some limits) = Some (subsets', toSubsetReplicaMap subsets')"
       "length subsets' = length subsets"
       "map SubsetName subsets' = map SubsetName subsets"
       "\<forall>k < length subsets. \<forall>v. map_of limits (SubsetName (subsets ! k)) = Some v
            \<longrightarrow> subsets' ! k = (subsets ! k)\<lparr>Replicas := v, Specified := True\<rparr>"
    by blast
  define m where "m = toSubsetReplicaMap subsets'"
  have eff: "effectiveReplicas subsets T (Some limits) = (True, '''')"
    using assms(2) by (rule effectiveReplicas_True)
  have run: "AllocateReplicas subsets T (Some limits) = Some (subsets', m, True, '''')"
    by (simp add: AllocateReplicas_def eff r(1) m_def)
  have d': "distinct (map SubsetName subsets')" using assms(1) r(3) by simp
  have pinned: "\<forall>k < length subsets. \<forall>v.
               map_of limits (SubsetName (subsets ! k)) = Some v \<longrightarrow>
                 subsets' ! k = (subsets ! k)\<lparr>Replicas := v, Specified := True\<rparr>
               \<and> map_of m (SubsetName (subsets ! k)) = Some v"
  proof (intro allI impI)
    fix k v assume k: "k < length subsets"
      and v: "map_of limits (SubsetName (subsets ! k)) = Some v"
    from r(4) k v have e: "subsets' ! k = (subsets ! k)\<lparr>Replicas := v, Specified := True\<rparr>"
      by blast
    have "subsets' ! k \<in> set subsets'" using k r(2) by simp
    from map_of_toSubsetReplicaMap [OF d' this]
    have "map_of m (SubsetName (subsets ! k)) = Some v"
      by (simp add: e m_def)
    with e show "subsets' ! k = (subsets ! k)\<lparr>Replicas := v, Specified := True\<rparr>
               \<and> map_of m (SubsetName (subsets ! k)) = Some v"
      by simp
  qed
  show ?thesis
    using run r(2) pinned by blast
qed

theorem pinned_fidelity_witness:
  "\<exists>subsets' m.
     AllocateReplicas
       [\<lparr>SubsetName = ''A'', Replicas = 2, Specified = False\<rparr>,
        \<lparr>SubsetName = ''B'', Replicas = 8, Specified = False\<rparr>] 10 (Some [(''A'', 7)])
       = Some (subsets', m, True, '''')
     \<and> map_of m ''A'' = Some 7"
proof -
  let ?subsets = "[\<lparr>SubsetName = ''A'', Replicas = 2, Specified = False\<rparr>,
                   \<lparr>SubsetName = ''B'', Replicas = 8, Specified = False\<rparr>]"
  have h1: "distinct (map SubsetName ?subsets)" by simp
  have h2: "fst (effectiveReplicas ?subsets 10 (Some [(''A'', 7)]))"
    by (simp add: effectiveReplicas_def sumLimits_def countSpecified_def Len_def i32_def)
  from pinned_fidelity [OF h1 h2] obtain subsets' m where
    r: "AllocateReplicas ?subsets 10 (Some [(''A'', 7)]) = Some (subsets', m, True, '''')"
       "\<forall>k < length ?subsets. \<forall>v.
               map_of [(''A'', 7)] (SubsetName (?subsets ! k)) = Some v \<longrightarrow>
                 subsets' ! k = (?subsets ! k)\<lparr>Replicas := v, Specified := True\<rparr>
               \<and> map_of m (SubsetName (?subsets ! k)) = Some v"
    by blast
  from r(2) [rule_format, of 0 7] have "map_of m ''A'' = Some 7" by simp
  with r(1) show ?thesis by blast
qed

text \<open>
  C4. In the normal path, when the pool left after the specified replicas is not
  negative and some record is unspecified, the pool \<open>T - \<Sigma>\<close> is split over the \<open>N - k\<close>
  unspecified records as quotient and remainder: an unspecified record receives the
  quotient, plus one exactly when fewer than \<open>remainder\<close> unspecified records have a higher
  index (they come first in the walk from the highest index down, which skips the
  specified records). Hence the targets of two unspecified records differ by at most 1.
  Here \<open>\<Sigma>\<close> is the sum step 1 accumulates, \<open>specifiedSum\<close>; for unique subset names and a
  map keyed by them it is the sum of the map (\<open>specifiedSum_eq\<close>), which the feasibility
  check bounds by the total.
\<close>

theorem normal_path_fair:
  assumes "\<forall>nts\<in>set subsets. \<not> Specified nts"
    and "is_int32 T"
    and "0 \<le> specifiedSum limits subsets"
    and "specifiedSum limits subsets \<le> T"
    and "specifiedCount limits subsets < length subsets"
  shows "\<exists>subsets'.
           normalAllocate subsets T (Some limits) = Some (subsets', toSubsetReplicaMap subsets')
         \<and> (\<forall>k < length subsets. map_of limits (SubsetName (subsets ! k)) = None \<longrightarrow>
               Replicas (subsets' ! k)
                 = (T - specifiedSum limits subsets)
                     div (int (length subsets) - int (specifiedCount limits subsets))
                   + (if int (freeAbove limits subsets k)
                           < (T - specifiedSum limits subsets)
                               mod (int (length subsets) - int (specifiedCount limits subsets))
                      then 1 else 0))
         \<and> (\<forall>k < length subsets. \<forall>l < length subsets.
               map_of limits (SubsetName (subsets ! k)) = None
               \<and> map_of limits (SubsetName (subsets ! l)) = None \<longrightarrow>
               \<bar>Replicas (subsets' ! k) - Replicas (subsets' ! l)\<bar> \<le> 1)"
proof -
  from normalAllocate_spec [OF assms] obtain subsets' where
    r: "normalAllocate subsets T (Some limits) = Some (subsets', toSubsetReplicaMap subsets')"
       "\<forall>k < length subsets. map_of limits (SubsetName (subsets ! k)) = None \<longrightarrow>
            Replicas (subsets' ! k)
              = (T - specifiedSum limits subsets)
                  div (int (length subsets) - int (specifiedCount limits subsets))
                + (if int (freeAbove limits subsets k)
                        < (T - specifiedSum limits subsets)
                            mod (int (length subsets) - int (specifiedCount limits subsets))
                   then 1 else 0)"
    by blast
  have "\<forall>k < length subsets. \<forall>l < length subsets.
               map_of limits (SubsetName (subsets ! k)) = None
               \<and> map_of limits (SubsetName (subsets ! l)) = None \<longrightarrow>
               \<bar>Replicas (subsets' ! k) - Replicas (subsets' ! l)\<bar> \<le> 1"
  proof (intro allI impI)
    fix k l assume k: "k < length subsets" and l: "l < length subsets"
      and u: "map_of limits (SubsetName (subsets ! k)) = None
               \<and> map_of limits (SubsetName (subsets ! l)) = None"
    from r(2) k u have "Replicas (subsets' ! k)
              = (T - specifiedSum limits subsets)
                  div (int (length subsets) - int (specifiedCount limits subsets))
                + (if int (freeAbove limits subsets k)
                        < (T - specifiedSum limits subsets)
                            mod (int (length subsets) - int (specifiedCount limits subsets))
                   then 1 else 0)" by blast
    moreover from r(2) l u have "Replicas (subsets' ! l)
              = (T - specifiedSum limits subsets)
                  div (int (length subsets) - int (specifiedCount limits subsets))
                + (if int (freeAbove limits subsets l)
                        < (T - specifiedSum limits subsets)
                            mod (int (length subsets) - int (specifiedCount limits subsets))
                   then 1 else 0)" by blast
    ultimately show "\<bar>Replicas (subsets' ! k) - Replicas (subsets' ! l)\<bar> \<le> 1"
      by (simp split: if_splits)
  qed
  with r show ?thesis by blast
qed

theorem normal_path_fair_witness:
  "\<exists>subsets'.
     normalAllocate
       [\<lparr>SubsetName = ''A'', Replicas = 0, Specified = False\<rparr>,
        \<lparr>SubsetName = ''B'', Replicas = 0, Specified = False\<rparr>,
        \<lparr>SubsetName = ''C'', Replicas = 0, Specified = False\<rparr>] 10 (Some [])
       = Some (subsets', toSubsetReplicaMap subsets')
     \<and> Replicas (subsets' ! 2) = 4 \<and> Replicas (subsets' ! 1) = 3"
proof -
  let ?subsets = "[\<lparr>SubsetName = ''A'', Replicas = 0, Specified = False\<rparr>,
                   \<lparr>SubsetName = ''B'', Replicas = 0, Specified = False\<rparr>,
                   \<lparr>SubsetName = ''C'', Replicas = 0, Specified = False\<rparr>]"
  have h1: "\<forall>nts\<in>set ?subsets. \<not> Specified nts" by simp
  have h2: "is_int32 10" by (simp add: is_int32_def)
  have h3: "0 \<le> specifiedSum [] ?subsets" by (simp add: specifiedSum_def)
  have h4: "specifiedSum [] ?subsets \<le> 10" by (simp add: specifiedSum_def)
  have h5: "specifiedCount [] ?subsets < length ?subsets" by (simp add: specifiedCount_def)
  from normal_path_fair [OF h1 h2 h3 h4 h5] obtain subsets' where
    r: "normalAllocate ?subsets 10 (Some []) = Some (subsets', toSubsetReplicaMap subsets')"
       "\<forall>k < length ?subsets. map_of ([] :: replicaMap) (SubsetName (?subsets ! k)) = None \<longrightarrow>
               Replicas (subsets' ! k)
                 = (10 - specifiedSum [] ?subsets)
                     div (int (length ?subsets) - int (specifiedCount [] ?subsets))
                   + (if int (freeAbove [] ?subsets k)
                           < (10 - specifiedSum [] ?subsets)
                               mod (int (length ?subsets) - int (specifiedCount [] ?subsets))
                      then 1 else 0)"
    by blast
  from r(2) [rule_format, of 2] have "Replicas (subsets' ! 2) = 4"
    by (simp add: specifiedSum_def specifiedCount_def freeAbove_def)
  moreover from r(2) [rule_format, of 1] have "Replicas (subsets' ! 1) = 3"
    by (simp add: specifiedSum_def specifiedCount_def freeAbove_def)
  ultimately show ?thesis using r(1) by blast
qed

text \<open>
  C1, as stated for every input, fails for the topology without subsets and the total 1:
  the check is infeasible, the incremental path returns the empty map, and the values of
  the empty map sum to 0.
\<close>

theorem sum_invariant_counterexample:
  "AllocateReplicas [] 1 (Some []) = Some ([], [], False, lessReason 0 1)
   \<and> sumValues [] \<noteq> 1"
  by (simp add: AllocateReplicas_def effectiveReplicas_def sumLimits_def countSpecified_def
      Len_def incrementalAllocate_def currentReplicas_def i32_def scaleOutExclude.simps
      scaleOutAssign.simps initState_def toSubsetReplicaMap_def sumValues_def Let_def)

text \<open>
  C1, amended. For a record list with at least one record, unique names, fresh records
  with non-negative current replicas, a non-negative total, and a specified map whose keys
  are subset names and whose values lie between 0 and the total (all sums within the
  \<^verbatim>\<open>int32\<close> range), \<^verbatim>\<open>AllocateReplicas\<close> returns, on the normal and on the incremental
  path alike, a map with one entry per subset whose values sum to the total.
\<close>

theorem allocation_sums_to_total:
  assumes "subsets \<noteq> []"
    and "distinct (map SubsetName subsets)"
    and "\<forall>nts\<in>set subsets. \<not> Specified nts"
    and "\<forall>nts\<in>set subsets. 0 \<le> Replicas nts"
    and "int (length subsets) < 2 ^ 31"
    and "0 \<le> T" and "is_int32 T"
    and "is_int32 (sum_list (map Replicas subsets))"
    and "distinct (map fst limits)"
    and "fst ` set limits \<subseteq> SubsetName ` set subsets"
    and "\<forall>(name, replicas)\<in>set limits. 0 \<le> replicas \<and> replicas \<le> T"
    and "is_int32 (sum_list (map snd limits))"
  shows "\<exists>subsets' m effective reason.
           AllocateReplicas subsets T (Some limits) = Some (subsets', m, effective, reason)
         \<and> map fst m = map SubsetName subsets
         \<and> sumValues m = T"
proof -
  from allocate_core [OF assms(2-12) assms(1)] obtain subsets' effective reason where
    r: "AllocateReplicas subsets T (Some limits)
             = Some (subsets', toSubsetReplicaMap subsets', effective, reason)"
       "map SubsetName subsets' = map SubsetName subsets"
       "sum_list (map Replicas subsets') = T"
    by blast
  have d': "distinct (map SubsetName subsets')" using assms(2) r(2) by simp
  have "map fst (toSubsetReplicaMap subsets') = map SubsetName subsets"
    using r(2) by (simp add: toSubsetReplicaMap_distinct [OF d'] comp_def)
  moreover have "sumValues (toSubsetReplicaMap subsets') = T"
    using sumValues_toSubsetReplicaMap [OF d'] r(3) by simp
  ultimately show ?thesis using r(1) by blast
qed

theorem allocation_sums_to_total_witness:
  "\<exists>subsets' m effective reason.
     AllocateReplicas
       [\<lparr>SubsetName = ''A'', Replicas = 2, Specified = False\<rparr>,
        \<lparr>SubsetName = ''B'', Replicas = 8, Specified = False\<rparr>]
       13 (Some [(''A'', 8), (''B'', 8)]) = Some (subsets', m, effective, reason)
     \<and> sumValues m = 13"
proof -
  let ?subsets = "[\<lparr>SubsetName = ''A'', Replicas = 2, Specified = False\<rparr>,
                   \<lparr>SubsetName = ''B'', Replicas = 8, Specified = False\<rparr>]"
  let ?limits = "[(''A'', 8), (''B'', 8)] :: replicaMap"
  have h1: "?subsets \<noteq> []" by simp
  have h2: "distinct (map SubsetName ?subsets)" by simp
  have h3: "\<forall>nts\<in>set ?subsets. \<not> Specified nts" by simp
  have h4: "\<forall>nts\<in>set ?subsets. 0 \<le> Replicas nts" by simp
  have h5: "int (length ?subsets) < 2 ^ 31" by simp
  have h6: "(0::int) \<le> 13" by simp
  have h7: "is_int32 13" by (simp add: is_int32_def)
  have h8: "is_int32 (sum_list (map Replicas ?subsets))" by (simp add: is_int32_def)
  have h9: "distinct (map fst ?limits)" by simp
  have h10: "fst ` set ?limits \<subseteq> SubsetName ` set ?subsets" by simp
  have h11: "\<forall>(name, replicas)\<in>set ?limits. 0 \<le> replicas \<and> replicas \<le> 13" by simp
  have h12: "is_int32 (sum_list (map snd ?limits))" by (simp add: is_int32_def)
  from allocation_sums_to_total [OF h1 h2 h3 h4 h5 h6 h7 h8 h9 h10 h11 h12]
  show ?thesis by blast
qed

text \<open>
  C6. For records with unique names and non-negative current replicas, a non-negative
  total and a specified map with values between 0 and the total (all sums within the
  \<^verbatim>\<open>int32\<close> range), every replica count in the map returned by \<^verbatim>\<open>AllocateReplicas\<close> is
  non-negative, whichever path computed it.
\<close>

theorem allocation_nonneg:
  assumes "distinct (map SubsetName subsets)"
    and "\<forall>nts\<in>set subsets. \<not> Specified nts"
    and "\<forall>nts\<in>set subsets. 0 \<le> Replicas nts"
    and "int (length subsets) < 2 ^ 31"
    and "0 \<le> T" and "is_int32 T"
    and "is_int32 (sum_list (map Replicas subsets))"
    and "distinct (map fst limits)"
    and "\<forall>(name, replicas)\<in>set limits. 0 \<le> replicas \<and> replicas \<le> T"
    and "is_int32 (sum_list (map snd limits))"
  shows "\<exists>subsets' m effective reason.
           AllocateReplicas subsets T (Some limits) = Some (subsets', m, effective, reason)
         \<and> (\<forall>replicas \<in> snd ` set m. 0 \<le> replicas)"
proof (cases "subsets = []")
  case True
  from AllocateReplicas_no_records [OF assms(5,6), of limits] obtain subsets' effective reason
    where "AllocateReplicas [] T (Some limits) = Some (subsets', [], effective, reason)"
    by blast
  then have "AllocateReplicas subsets T (Some limits) = Some (subsets', [], effective, reason)
             \<and> (\<forall>replicas \<in> snd ` set ([] :: replicaMap). 0 \<le> replicas)"
    using True by simp
  then show ?thesis by blast
next
  case False
  from allocate_nonneg_core [OF assms False] obtain subsets' effective reason where
    r: "AllocateReplicas subsets T (Some limits)
             = Some (subsets', toSubsetReplicaMap subsets', effective, reason)"
       "length subsets' = length subsets"
       "map SubsetName subsets' = map SubsetName subsets"
       "\<forall>k < length subsets. 0 \<le> Replicas (subsets' ! k)"
    by blast
  have d': "distinct (map SubsetName subsets')" using assms(1) r(3) by simp
  have "\<forall>replicas \<in> snd ` set (toSubsetReplicaMap subsets'). 0 \<le> replicas"
  proof
    fix replicas assume "replicas \<in> snd ` set (toSubsetReplicaMap subsets')"
    then have "replicas \<in> Replicas ` set subsets'"
      by (auto simp: toSubsetReplicaMap_distinct [OF d'])
    then obtain k where "k < length subsets'" "replicas = Replicas (subsets' ! k)"
      by (auto simp: in_set_conv_nth)
    with r(2,4) show "0 \<le> replicas" by simp
  qed
  with r(1) show ?thesis by blast
qed

theorem allocation_nonneg_witness:
  "\<exists>subsets' m effective reason.
     AllocateReplicas
       [\<lparr>SubsetName = ''A'', Replicas = 2, Specified = False\<rparr>,
        \<lparr>SubsetName = ''B'', Replicas = 8, Specified = False\<rparr>]
       10 (Some [(''A'', 7)]) = Some (subsets', m, effective, reason)
     \<and> (\<forall>replicas \<in> snd ` set m. 0 \<le> replicas)"
proof -
  let ?subsets = "[\<lparr>SubsetName = ''A'', Replicas = 2, Specified = False\<rparr>,
                   \<lparr>SubsetName = ''B'', Replicas = 8, Specified = False\<rparr>]"
  let ?limits = "[(''A'', 7)] :: replicaMap"
  have h2: "distinct (map SubsetName ?subsets)" by simp
  have h3: "\<forall>nts\<in>set ?subsets. \<not> Specified nts" by simp
  have h4: "\<forall>nts\<in>set ?subsets. 0 \<le> Replicas nts" by simp
  have h5: "int (length ?subsets) < 2 ^ 31" by simp
  have h6: "(0::int) \<le> 10" by simp
  have h7: "is_int32 10" by (simp add: is_int32_def)
  have h8: "is_int32 (sum_list (map Replicas ?subsets))" by (simp add: is_int32_def)
  have h9: "distinct (map fst ?limits)" by simp
  have h11: "\<forall>(name, replicas)\<in>set ?limits. 0 \<le> replicas \<and> replicas \<le> 10" by simp
  have h12: "is_int32 (sum_list (map snd ?limits))" by (simp add: is_int32_def)
  from allocation_nonneg [OF h2 h3 h4 h5 h6 h7 h8 h9 h11 h12]
  show ?thesis by blast
qed

text \<open>
  C8. The result does not depend on what the code leaves open. Whatever arrangement
  \<^verbatim>\<open>sort.Sort\<close> returns for the records of a topology with unique names (any permutation
  without inversion), and in whatever order the specified map is iterated (any association
  list with the same content), \<^verbatim>\<open>AllocateReplicas\<close> returns what \<open>GetAllocatedReplicas\<close>
  computes: the same records, map, flag and reason. For records with unique names the
  sorted arrangement is unique, so \<^verbatim>\<open>String\<close>, which sorts and then formats, yields one text;
  and \<open>Less\<close> is irreflexive, transitive, and total on records with different names.
\<close>

theorem deterministic_allocation:
  assumes "distinct (map Name topology)"
    and "mset sortedInfos = mset (getSubsetInfos nameToSubset topology)"
    and "noInversion sortedInfos"
    and "getSpecifiedSubsetReplicas parse T topology = Some built"
    and "distinct (map fst limits)"
    and "map_of limits = map_of built"
  shows "AllocateReplicas sortedInfos T (Some limits)
           = GetAllocatedReplicas parse nameToSubset T topology
       \<and> (distinct (map SubsetName xs) \<and> mset ys = mset xs \<and> noInversion ys
            \<longrightarrow> ys = sort_Sort xs \<and> String xs = (ys, formatRecords ys))
       \<and> \<not> Less a a
       \<and> (Less a b \<and> Less b c \<longrightarrow> Less a c)
       \<and> (SubsetName a \<noteq> SubsetName b \<longrightarrow> Less a b \<or> Less b a)"
proof (intro conjI impI)
  have d: "distinct (map SubsetName (getSubsetInfos nameToSubset topology))"
    using assms(1) by (simp add: getSubsetInfos_names)
  have s: "sortedInfos = sort_Sort (getSubsetInfos nameToSubset topology)"
    using d assms(2,3) by (rule sort_Sort_unique)
  have db: "distinct (map fst built)"
    using assms(4) by (rule getSpecifiedSubsetReplicas_distinct)
  show "AllocateReplicas sortedInfos T (Some limits)
           = GetAllocatedReplicas parse nameToSubset T topology"
    using AllocateReplicas_cong [OF assms(5) db assms(6)]
    by (simp add: GetAllocatedReplicas_def SortToAllocator_def assms(4) s Let_def)
next
  assume h: "distinct (map SubsetName xs) \<and> mset ys = mset xs \<and> noInversion ys"
  then show e: "ys = sort_Sort xs" by (blast intro: sort_Sort_unique)
  show "String xs = (ys, formatRecords ys)" by (simp add: String_eq e)
next
  show "\<not> Less a a" by (rule Less_irrefl)
next
  assume "Less a b \<and> Less b c"
  then show "Less a c" by (blast intro: Less_trans)
next
  assume "SubsetName a \<noteq> SubsetName b"
  then show "Less a b \<or> Less b a" by (rule Less_total)
qed

theorem deterministic_allocation_witness:
  "AllocateReplicas
     [\<lparr>SubsetName = ''A'', Replicas = 2, Specified = False\<rparr>,
      \<lparr>SubsetName = ''B'', Replicas = 8, Specified = False\<rparr>]
     10 (Some [(''A'', 7), (''B'', 1)])
   = GetAllocatedReplicas (\<lambda>t s. Some s) [''A'' \<mapsto> 2, ''B'' \<mapsto> 8] 10
       [\<lparr>Name = ''B'', ReplicasSpec = Some (1::int)\<rparr>,
        \<lparr>Name = ''A'', ReplicasSpec = Some 7\<rparr>]
   \<and> [\<lparr>SubsetName = ''A'', Replicas = 2, Specified = False\<rparr>,
       \<lparr>SubsetName = ''B'', Replicas = 8, Specified = False\<rparr>]
     = sort_Sort [\<lparr>SubsetName = ''B'', Replicas = 8, Specified = False\<rparr>,
                  \<lparr>SubsetName = ''A'', Replicas = 2, Specified = False\<rparr>]
   \<and> Less \<lparr>SubsetName = ''A'', Replicas = 2, Specified = False\<rparr>
           \<lparr>SubsetName = ''C'', Replicas = 9, Specified = False\<rparr>"
proof -
  let ?A = "\<lparr>SubsetName = ''A'', Replicas = 2, Specified = False\<rparr>"
  let ?B = "\<lparr>SubsetName = ''B'', Replicas = 8, Specified = False\<rparr>"
  let ?C = "\<lparr>SubsetName = ''C'', Replicas = 9, Specified = False\<rparr>"
  let ?topology = "[\<lparr>Name = ''B'', ReplicasSpec = Some (1::int)\<rparr>,
                    \<lparr>Name = ''A'', ReplicasSpec = Some 7\<rparr>]"
  let ?parse = "\<lambda>(t::int) (s::int). Some s"
  let ?cur = "[''A'' \<mapsto> 2, ''B'' \<mapsto> (8::int)]"
  let ?built = "[(''B'', 1), (''A'', 7)] :: replicaMap"
  let ?limits = "[(''A'', 7), (''B'', 1)] :: replicaMap"
  have h1: "distinct (map Name ?topology)" by simp
  have h2: "mset [?A, ?B] = mset (getSubsetInfos ?cur ?topology)"
    by (simp add: getSubsetInfos_def)
  have h3: "noInversion [?A, ?B]" by (simp add: noInversion_def Less_def)
  have h4: "getSpecifiedSubsetReplicas ?parse 10 ?topology = Some ?built"
    by (simp add: getSpecifiedSubsetReplicas_def)
  have h5: "distinct (map fst ?limits)" by simp
  have h6: "map_of ?limits = map_of ?built" by (rule ext) simp
  have g1: "distinct (map SubsetName [?B, ?A]) \<and> mset [?A, ?B] = mset [?B, ?A]
            \<and> noInversion [?A, ?B]"
    using h3 by simp
  have g2: "Less ?A ?B \<and> Less ?B ?C" by (simp add: Less_def)
  from deterministic_allocation [OF h1 h2 h3 h4 h5 h6,
      where xs = "[?B, ?A]" and ys = "[?A, ?B]" and a = ?A and b = ?B and c = ?C] g1 g2
  show ?thesis by blast
qed

end
